theory Spec2Isabelle
  imports Main "HOL-Library.Word"
begin

unbundle bit_operations_syntax

section \<open>Platform configuration\<close>

text \<open>
  The file \<^verbatim>\<open>sys/uvm/pmap/pmap_segtab.c\<close> is compiled under the preprocessor options
  \<^verbatim>\<open>_LP64\<close>, \<^verbatim>\<open>MULTIPROCESSOR\<close>, \<^verbatim>\<open>PMAP_PTP_CACHE\<close> and \<^verbatim>\<open>DEBUG\<close>, and against
  platform constants that live in machine-dependent headers.  Both are parameters of the
  model: a configuration record carries the four options and the constants.  The type
  parameter \<open>'a\<close> is the width of \<^verbatim>\<open>vaddr_t\<close>, \<^verbatim>\<open>vsize_t\<close>, \<^verbatim>\<open>uintptr_t\<close> and of
  pointers.  \<^verbatim>\<open>KASSERT\<close> and \<^verbatim>\<open>UVMHIST\<close> expand to nothing unless the kernel is built
  with \<^verbatim>\<open>DIAGNOSTIC\<close> or \<^verbatim>\<open>UVMHIST\<close>; the model is of a kernel built without them.
\<close>

record (overloaded) 'a config =
  LP64 :: bool
  MULTIPROCESSOR :: bool
  PMAP_PTP_CACHE :: bool
  DEBUG :: bool
  PGSHIFT :: nat
  SEGSHIFT :: nat
  XSEGSHIFT :: nat
  PMAP_SEGTABSIZE :: nat
  NSEGPG :: nat
  NPTEPG :: nat
  sizeof_segtab :: nat
  sizeof_pte :: nat
  PMAP_CANFAIL :: "32 word"
  PMAP_INVALID_SEGTAB_ADDRESS :: "'a word"

definition NBPG :: "'a::len config \<Rightarrow> 'a word" where
  "NBPG cfg = push_bit (PGSHIFT cfg) 1"

definition PAGE_MASK :: "'a::len config \<Rightarrow> 'a word" where
  "PAGE_MASK cfg = NBPG cfg - 1"

text \<open>
  Modelled from the spec: the macros \<^verbatim>\<open>NBSEG\<close>, \<^verbatim>\<open>NBXSEG\<close> and \<^verbatim>\<open>pmap_trunc_seg\<close> are
  not in the source file.  The specification gives the span of one leaf as
  \<^verbatim>\<open>NPTEPG * PAGE_SIZE\<close>, that of a bottom segtab as \<^verbatim>\<open>NBSEG * PMAP_SEGTABSIZE\<close>, and
  \<^verbatim>\<open>trunc_seg\<close> as rounding down to a multiple of \<^verbatim>\<open>NBSEG\<close>.
\<close>

definition NBSEG :: "'a::len config \<Rightarrow> 'a word" where
  "NBSEG cfg = of_nat (NPTEPG cfg) * NBPG cfg"

definition NBXSEG :: "'a::len config \<Rightarrow> 'a word" where
  "NBXSEG cfg = NBSEG cfg * of_nat (PMAP_SEGTABSIZE cfg)"

definition pmap_trunc_seg :: "'a::len config \<Rightarrow> 'a word \<Rightarrow> 'a word" where
  "pmap_trunc_seg cfg va = va AND NOT (NBSEG cfg - 1)"

text \<open>The three index fields of a virtual address, as the source computes them.\<close>

definition xseg_index :: "'a::len config \<Rightarrow> 'a word \<Rightarrow> nat" where
  "xseg_index cfg va = unat (drop_bit (XSEGSHIFT cfg) va AND (of_nat (NSEGPG cfg) - 1))"

definition seg_index :: "'a::len config \<Rightarrow> 'a word \<Rightarrow> nat" where
  "seg_index cfg va = unat (drop_bit (SEGSHIFT cfg) va AND (of_nat (PMAP_SEGTABSIZE cfg) - 1))"

definition pte_index :: "'a::len config \<Rightarrow> 'a word \<Rightarrow> 'a word" where
  "pte_index cfg va = drop_bit (PGSHIFT cfg) va AND (of_nat (NPTEPG cfg) - 1)"

text \<open>
  The relations between the constants that the specification states (all fan-outs are
  powers of two, the fields tile the address, a segtab fits in a page) and that the
  source asserts with \<^verbatim>\<open>CTASSERT(NBPG >= sizeof(pmap_segtab_t))\<close>.
\<close>

definition config_ok :: "'a::len config \<Rightarrow> bool" where
  "config_ok cfg \<longleftrightarrow>
     PGSHIFT cfg < SEGSHIFT cfg \<and>
     NPTEPG cfg = 2 ^ (SEGSHIFT cfg - PGSHIFT cfg) \<and>
     0 < sizeof_pte cfg \<and>
     sizeof_pte cfg * NPTEPG cfg \<le> 2 ^ PGSHIFT cfg \<and>
     0 < sizeof_segtab cfg \<and>
     sizeof_segtab cfg \<le> 2 ^ PGSHIFT cfg \<and>
     (if LP64 cfg
      then SEGSHIFT cfg < XSEGSHIFT cfg \<and>
           PMAP_SEGTABSIZE cfg = 2 ^ (XSEGSHIFT cfg - SEGSHIFT cfg) \<and>
           NSEGPG cfg = PMAP_SEGTABSIZE cfg \<and>
           XSEGSHIFT cfg + (XSEGSHIFT cfg - SEGSHIFT cfg) \<le> LENGTH('a)
      else PMAP_SEGTABSIZE cfg \<in> set (map (\<lambda>k. 2 ^ k) [1..<Suc (LENGTH('a) - SEGSHIFT cfg)]) \<and>
           SEGSHIFT cfg < LENGTH('a))"

section \<open>State\<close>

text \<open>
  A pmap, of which this module reads and writes \<^verbatim>\<open>pm_segtab\<close> and reads \<^verbatim>\<open>pm_minaddr\<close>.
  Pointers are words; the null pointer is \<open>0\<close>.
\<close>

record (overloaded) 'a pmap =
  pm_segtab :: "'a word"
  pm_minaddr :: "'a word"

text \<open>A page-table entry is opaque to this module, which only tests it against zero.\<close>

type_synonym pt_entry = nat

text \<open>
  The memory the module works on is an object store: \<open>seg_heap s stb i\<close> is slot \<open>i\<close> of
  the \<^verbatim>\<open>pmap_segtab_t\<close> at address \<open>stb\<close> (the union members \<^verbatim>\<open>seg_seg[i]\<close> and
  \<^verbatim>\<open>seg_tab[i]\<close> are the same cell), \<open>pte_heap s pte i\<close> is entry \<open>i\<close> of the PTE array at
  address \<open>pte\<close>.  \<open>free_segtab\<close> and \<open>ptp_pgflist\<close> are the fields of the global
  \<^verbatim>\<open>pmap_segtab_info\<close>.  \<open>uvm_pages\<close> is the free list of the physical page allocator and
  \<open>cb_log\<close> records every callback invocation with its arguments
  \<open>(va_start, va_end, pte, flags)\<close>.
\<close>

record (overloaded) 'a kstate =
  seg_heap :: "'a word \<Rightarrow> nat \<Rightarrow> 'a word"
  pte_heap :: "'a word \<Rightarrow> nat \<Rightarrow> pt_entry"
  free_segtab :: "'a word"
  ptp_pgflist :: "'a word list"
  uvm_pages :: "'a word list"
  cb_log :: "('a word \<times> 'a word \<times> 'a word \<times> 'a word) list"

datatype panic =
  PanicSegtabNotEmpty
  | PanicPteNotAligned
  | PanicPteNotZero
  | PanicNoPage

text \<open>
  Modelled from the spec: callback bodies are supplied by callers and are not in the
  source file.  By the callback contract of the specification a callback reads and
  modifies page-table entries; it is a transformer of the PTE store that receives the
  arguments \<open>(pmap, va_start, va_end, pte, flags)\<close>.
\<close>

type_synonym 'a pte_callback =
  "'a pmap \<Rightarrow> 'a word \<Rightarrow> 'a word \<Rightarrow> 'a word \<Rightarrow> 'a word \<Rightarrow>
   ('a word \<Rightarrow> nat \<Rightarrow> pt_entry) \<Rightarrow> ('a word \<Rightarrow> nat \<Rightarrow> pt_entry)"

definition invoke_callback ::
  "'a pte_callback \<Rightarrow> 'a pmap \<Rightarrow> 'a word \<Rightarrow> 'a word \<Rightarrow> 'a word \<Rightarrow> 'a word \<Rightarrow>
   'a kstate \<Rightarrow> 'a kstate" where
  "invoke_callback callback pmap va_start va_end pte flags s =
     s\<lparr>pte_heap := callback pmap va_start va_end pte flags (pte_heap s),
       cb_log := cb_log s @ [(va_start, va_end, pte, flags)]\<rparr>"

definition seg_store :: "'a word \<Rightarrow> nat \<Rightarrow> 'a word \<Rightarrow> 'a kstate \<Rightarrow> 'a kstate" where
  "seg_store stb i v s = s\<lparr>seg_heap := (seg_heap s)(stb := (seg_heap s stb)(i := v))\<rparr>"

section \<open>Page source\<close>

text \<open>
  Modelled from the spec: the physical page allocator (\<^verbatim>\<open>PMAP_ALLOC_POOLPAGE\<close>,
  \<^verbatim>\<open>uvm_pagefree\<close>, \<^verbatim>\<open>uvm_wait\<close>) and the direct map (\<^verbatim>\<open>PMAP_MAP_POOLPAGE\<close>,
  \<^verbatim>\<open>PMAP_UNMAP_POOLPAGE\<close>, \<^verbatim>\<open>VM_PAGE_TO_PHYS\<close>, \<^verbatim>\<open>PHYS_TO_VM_PAGE\<close>) are not in the
  source file.  By the specification \<^verbatim>\<open>page_alloc\<close> yields one zero-filled page or null,
  \<^verbatim>\<open>page_free\<close> returns a page to the allocator, page and physical address map to each
  other by the identity, the direct map is a reversible pair, and \<^verbatim>\<open>wait_for_memory\<close>
  blocks until memory pressure eases.  A page is named by its direct-map address; with
  no other thread to release memory, \<^verbatim>\<open>uvm_wait\<close> leaves the state as it is.
\<close>

definition stb_at :: "'a::len config \<Rightarrow> 'a word \<Rightarrow> nat \<Rightarrow> 'a word" where
  "stb_at cfg stb i = stb + of_nat (i * sizeof_segtab cfg)"

definition segtabs_per_page :: "'a::len config \<Rightarrow> nat" where
  "segtabs_per_page cfg = unat (NBPG cfg) div sizeof_segtab cfg"

definition page_segtabs :: "'a::len config \<Rightarrow> 'a word \<Rightarrow> 'a word list" where
  "page_segtabs cfg pg = map (stb_at cfg pg) [0..<segtabs_per_page cfg]"

definition zero_page :: "'a::len config \<Rightarrow> 'a word \<Rightarrow> 'a kstate \<Rightarrow> 'a kstate" where
  "zero_page cfg pg s =
     s\<lparr>seg_heap := (\<lambda>stb. if stb \<in> set (page_segtabs cfg pg) then (\<lambda>_. 0) else seg_heap s stb),
       pte_heap := (pte_heap s)(pg := (\<lambda>_. 0))\<rparr>"

definition PMAP_ALLOC_POOLPAGE :: "'a::len config \<Rightarrow> 'a kstate \<Rightarrow> 'a word \<times> 'a kstate" where
  "PMAP_ALLOC_POOLPAGE cfg s =
     (case uvm_pages s of
        [] \<Rightarrow> (0, s)
      | pg # rest \<Rightarrow> (pg, zero_page cfg pg (s\<lparr>uvm_pages := rest\<rparr>)))"

definition uvm_pagefree :: "'a word \<Rightarrow> 'a kstate \<Rightarrow> 'a kstate" where
  "uvm_pagefree pg s = s\<lparr>uvm_pages := pg # uvm_pages s\<rparr>"

definition uvm_wait :: "'a kstate \<Rightarrow> 'a kstate" where
  "uvm_wait s = s"

definition VM_PAGE_TO_PHYS :: "'a word \<Rightarrow> 'a word" where
  "VM_PAGE_TO_PHYS pg = pg"

definition PHYS_TO_VM_PAGE :: "'a word \<Rightarrow> 'a word" where
  "PHYS_TO_VM_PAGE pa = pa"

definition PMAP_MAP_POOLPAGE :: "'a word \<Rightarrow> 'a word" where
  "PMAP_MAP_POOLPAGE pa = pa"

definition PMAP_UNMAP_POOLPAGE :: "'a word \<Rightarrow> 'a word" where
  "PMAP_UNMAP_POOLPAGE va = va"

section \<open>Consistency checks\<close>

definition pmap_check_stb :: "'a::len config \<Rightarrow> 'a kstate \<Rightarrow> 'a word \<Rightarrow> panic + unit" where
  "pmap_check_stb cfg s stb =
     (if DEBUG cfg \<and> list_ex (\<lambda>i. seg_heap s stb i \<noteq> 0) [0..<PMAP_SEGTABSIZE cfg]
      then Inl PanicSegtabNotEmpty
      else Inr ())"

definition pmap_check_ptes :: "'a::len config \<Rightarrow> 'a kstate \<Rightarrow> 'a word \<Rightarrow> panic + unit" where
  "pmap_check_ptes cfg s pte =
     (if pte AND PAGE_MASK cfg \<noteq> 0 then Inl PanicPteNotAligned
      else if DEBUG cfg \<and> list_ex (\<lambda>i. pte_heap s pte i \<noteq> 0) [0..<NPTEPG cfg]
      then Inl PanicPteNotZero
      else Inr ())"

definition pmap_pte_pagealloc :: "'a::len config \<Rightarrow> 'a kstate \<Rightarrow> 'a word \<times> 'a kstate" where
  "pmap_pte_pagealloc cfg s = PMAP_ALLOC_POOLPAGE cfg s"

section \<open>Lookup\<close>

definition pmap_segmap :: "'a::len config \<Rightarrow> 'a pmap \<Rightarrow> 'a kstate \<Rightarrow> 'a word \<Rightarrow> 'a word" where
  "pmap_segmap cfg pmap s va =
     (let stb = pm_segtab pmap in
      if LP64 cfg then
        (let stb' = seg_heap s stb (xseg_index cfg va) in
         if stb' = 0 then 0 else seg_heap s stb' (seg_index cfg va))
      else seg_heap s stb (seg_index cfg va))"

definition pmap_pte_lookup :: "'a::len config \<Rightarrow> 'a pmap \<Rightarrow> 'a kstate \<Rightarrow> 'a word \<Rightarrow> 'a word" where
  "pmap_pte_lookup cfg pmap s va =
     (let pte = pmap_segmap cfg pmap s va in
      if pte = 0 then 0 else pte + of_nat (sizeof_pte cfg) * pte_index cfg va)"

section \<open>Directory-node pool\<close>

definition pmap_segtab_free :: "'a word \<Rightarrow> 'a kstate \<Rightarrow> 'a kstate" where
  "pmap_segtab_free stb s =
     s\<lparr>seg_heap := (seg_heap s)(stb := (seg_heap s stb)(0 := free_segtab s)),
       free_segtab := stb\<rparr>"

text \<open>
  The part of \<^verbatim>\<open>pmap_segtab_alloc\<close> that dices a fresh page at \<open>stb\<close> into \<open>n > 1\<close>
  segtabs: elements \<open>1 .. n - 2\<close> are linked to their successors (\<open>link_step\<close> is the
  assignment \<^verbatim>\<open>stb[i].seg_seg[0] = &stb[i+1]\<close>), element \<open>n - 1\<close> to the old free list, and
  element \<open>1\<close> becomes the head.
\<close>

definition link_step ::
  "'a::len config \<Rightarrow> 'a word \<Rightarrow> nat \<Rightarrow> ('a word \<Rightarrow> nat \<Rightarrow> 'a word) \<Rightarrow> ('a word \<Rightarrow> nat \<Rightarrow> 'a word)" where
  "link_step cfg stb i h = h(stb_at cfg stb i := (h (stb_at cfg stb i))(0 := stb_at cfg stb (i + 1)))"

definition segtab_link_page ::
  "'a::len config \<Rightarrow> 'a word \<Rightarrow> nat \<Rightarrow> 'a kstate \<Rightarrow> 'a kstate" where
  "segtab_link_page cfg stb n s =
     (let h1 = fold (link_step cfg stb) [1..<n - 1] (seg_heap s);
          h2 = h1(stb_at cfg stb (n - 1) := (h1 (stb_at cfg stb (n - 1)))(0 := free_segtab s))
      in s\<lparr>seg_heap := h2, free_segtab := stb_at cfg stb 1\<rparr>)"

definition checked_stb ::
  "'a::len config \<Rightarrow> 'a word \<Rightarrow> 'a kstate \<Rightarrow> panic + ('a word \<times> 'a kstate)" where
  "checked_stb cfg stb s =
     (case pmap_check_stb cfg s stb of Inl e \<Rightarrow> Inl e | Inr _ \<Rightarrow> Inr (stb, s))"

text \<open>
  \<^verbatim>\<open>pmap_segtab_alloc\<close> loops (\<^verbatim>\<open>goto again\<close>) while the page allocator has no page, so
  it is a partial function: \<open>None\<close> is the call that never returns.
\<close>

partial_function (option) pmap_segtab_alloc ::
  "'a::len config \<Rightarrow> 'a kstate \<Rightarrow> (panic + ('a word \<times> 'a kstate)) option" where
  "pmap_segtab_alloc cfg s =
     (if free_segtab s \<noteq> 0 then
        Some (checked_stb cfg (free_segtab s)
          (s\<lparr>free_segtab := seg_heap s (free_segtab s) 0,
             seg_heap := (seg_heap s)(free_segtab s := (seg_heap s (free_segtab s))(0 := 0))\<rparr>))
      else
        (case pmap_pte_pagealloc cfg s of
           (stb_pg, s1) \<Rightarrow>
             if stb_pg = 0 then pmap_segtab_alloc cfg (uvm_wait s1)
             else
               Some (checked_stb cfg (PMAP_MAP_POOLPAGE (VM_PAGE_TO_PHYS stb_pg))
                 (if segtabs_per_page cfg > 1
                  then segtab_link_page cfg (PMAP_MAP_POOLPAGE (VM_PAGE_TO_PHYS stb_pg))
                         (segtabs_per_page cfg) s1
                  else s1))))"

definition pmap_segtab_init ::
  "'a::len config \<Rightarrow> 'a pmap \<Rightarrow> 'a kstate \<Rightarrow> (panic + ('a pmap \<times> 'a kstate)) option" where
  "pmap_segtab_init cfg pmap s =
     Option.bind (pmap_segtab_alloc cfg s)
       (\<lambda>r. case r of
              Inl e \<Rightarrow> Some (Inl e)
            | Inr (stb, s1) \<Rightarrow> Some (Inr (pmap\<lparr>pm_segtab := stb\<rparr>, s1)))"

section \<open>Teardown\<close>

text \<open>
  The parameter \<^verbatim>\<open>pmap_segtab_t **stb_p\<close> of \<^verbatim>\<open>pmap_segtab_release\<close> points either at
  the field \<^verbatim>\<open>pm_segtab\<close> of the pmap or at a slot of a segtab.
\<close>

datatype 'p stb_ref = PmSegtabRef | SegSlotRef 'p nat

fun load_stb :: "'a word stb_ref \<Rightarrow> 'a pmap \<times> 'a kstate \<Rightarrow> 'a word" where
  "load_stb PmSegtabRef (pmap, s) = pm_segtab pmap"
| "load_stb (SegSlotRef stb i) (pmap, s) = seg_heap s stb i"

fun store_stb :: "'a word stb_ref \<Rightarrow> 'a word \<Rightarrow> 'a pmap \<times> 'a kstate \<Rightarrow> 'a pmap \<times> 'a kstate" where
  "store_stb PmSegtabRef v (pmap, s) = (pmap\<lparr>pm_segtab := v\<rparr>, s)"
| "store_stb (SegSlotRef stb i) v (pmap, s) = (pmap, seg_store stb i v s)"

text \<open>The start index of the loop of \<^verbatim>\<open>pmap_segtab_release\<close>.\<close>

definition release_start :: "'a::len config \<Rightarrow> 'a word \<Rightarrow> 'a word \<Rightarrow> nat" where
  "release_start cfg va vinc = unat ((va div vinc) AND (of_nat (PMAP_SEGTABSIZE cfg) - 1))"

text \<open>
  The loop body for a bottom-level slot: the leaf in slot \<open>i\<close>, if any, is checked, handed
  to the callback, given back to the leaf-page cache or the page allocator, and the slot
  is nulled.
\<close>

definition release_leaf ::
  "'a::len config \<Rightarrow> 'a pte_callback option \<Rightarrow> 'a word \<Rightarrow> 'a word \<Rightarrow> nat \<Rightarrow> 'a word \<Rightarrow> 'a word \<Rightarrow>
   'a pmap \<times> 'a kstate \<Rightarrow> panic + ('a pmap \<times> 'a kstate)" where
  "release_leaf cfg callback flags stb i va vinc ps =
     (case ps of (pmap, s) \<Rightarrow>
        let pte = seg_heap s stb i in
        if pte = 0 then Inr (pmap, s)
        else
          (case pmap_check_ptes cfg s pte of
             Inl e \<Rightarrow> Inl e
           | Inr _ \<Rightarrow>
               let s1 = (case callback of
                           None \<Rightarrow> s
                         | Some f \<Rightarrow> invoke_callback f pmap va (va + vinc) pte flags s);
                   pa = PMAP_UNMAP_POOLPAGE pte;
                   pg = PHYS_TO_VM_PAGE pa;
                   s2 = (if PMAP_PTP_CACHE cfg then s1\<lparr>ptp_pgflist := pg # ptp_pgflist s1\<rparr>
                         else uvm_pagefree pg s1)
               in Inr (pmap, seg_store stb i 0 s2)))"

text \<open>The code after the loop: the segtab is checked, put on the free list, and the
  caller's pointer is nulled.\<close>

definition release_finish ::
  "'a::len config \<Rightarrow> 'a word stb_ref \<Rightarrow> 'a word \<Rightarrow> bool \<Rightarrow> 'a pmap \<times> 'a kstate \<Rightarrow>
   panic + ('a pmap \<times> 'a kstate)" where
  "release_finish cfg stb_p stb free_stb ps =
     (if free_stb then
        (case pmap_check_stb cfg (snd ps) stb of
           Inl e \<Rightarrow> Inl e
         | Inr _ \<Rightarrow> Inr (store_stb stb_p 0 (fst ps, pmap_segtab_free stb (snd ps))))
      else Inr ps)"

text \<open>
  The \<^verbatim>\<open>for\<close> loop of \<^verbatim>\<open>pmap_segtab_release\<close> on the segtab \<open>stb\<close>, at index \<open>i\<close> and
  address \<open>va\<close>.  Under \<^verbatim>\<open>_LP64\<close> a non-null slot of an upper level is released by the
  recursive call \<^verbatim>\<open>pmap_segtab_release(pmap, &stb->seg_seg[i], true, ..., va, vinc / NSEGPG)\<close>,
  which is the loop on the child from its start index followed by the code after the loop.
\<close>

partial_function (option) release_loop ::
  "'a::len config \<Rightarrow> 'a pte_callback option \<Rightarrow> 'a word \<Rightarrow> 'a word \<Rightarrow> nat \<Rightarrow> 'a word \<Rightarrow> 'a word \<Rightarrow>
   'a pmap \<times> 'a kstate \<Rightarrow> (panic + ('a pmap \<times> 'a kstate)) option" where
  "release_loop cfg callback flags stb i va vinc ps =
     (if i < PMAP_SEGTABSIZE cfg then
        (if LP64 cfg \<and> vinc > NBSEG cfg then
           (if seg_heap (snd ps) stb i \<noteq> 0 then
              Option.bind
                (release_loop cfg callback flags (seg_heap (snd ps) stb i)
                   (release_start cfg va (vinc div of_nat (NSEGPG cfg))) va
                   (vinc div of_nat (NSEGPG cfg)) ps)
                (\<lambda>r. case r of
                        Inl e \<Rightarrow> Some (Inl e)
                      | Inr ps1 \<Rightarrow>
                          (case release_finish cfg (SegSlotRef stb i) (seg_heap (snd ps) stb i) True ps1 of
                             Inl e \<Rightarrow> Some (Inl e)
                           | Inr ps2 \<Rightarrow> release_loop cfg callback flags stb (i + 1) (va + vinc) vinc ps2))
            else release_loop cfg callback flags stb (i + 1) (va + vinc) vinc ps)
         else
           (case release_leaf cfg callback flags stb i va vinc ps of
              Inl e \<Rightarrow> Some (Inl e)
            | Inr ps1 \<Rightarrow> release_loop cfg callback flags stb (i + 1) (va + vinc) vinc ps1))
      else Some (Inr ps))"

definition pmap_segtab_release ::
  "'a::len config \<Rightarrow> 'a word stb_ref \<Rightarrow> bool \<Rightarrow> 'a pte_callback option \<Rightarrow> 'a word \<Rightarrow> 'a word \<Rightarrow> 'a word \<Rightarrow>
   'a pmap \<times> 'a kstate \<Rightarrow> (panic + ('a pmap \<times> 'a kstate)) option" where
  "pmap_segtab_release cfg stb_p free_stb callback flags va vinc ps =
     Option.bind
       (release_loop cfg callback flags (load_stb stb_p ps) (release_start cfg va vinc) va vinc ps)
       (\<lambda>r. case r of
               Inl e \<Rightarrow> Some (Inl e)
             | Inr ps1 \<Rightarrow> Some (release_finish cfg stb_p (load_stb stb_p ps) free_stb ps1))"

definition pmap_segtab_destroy ::
  "'a::len config \<Rightarrow> 'a pte_callback option \<Rightarrow> 'a word \<Rightarrow> 'a pmap \<times> 'a kstate \<Rightarrow>
   (panic + ('a pmap \<times> 'a kstate)) option" where
  "pmap_segtab_destroy cfg func flags ps =
     (if pm_segtab (fst ps) = 0 then Some (Inr ps)
      else
        pmap_segtab_release cfg PmSegtabRef (func = None) func flags (pm_minaddr (fst ps))
          (if LP64 cfg then NBXSEG cfg else NBSEG cfg) ps)"

section \<open>Activation\<close>

text \<open>
  The per-CPU fields written by activation.  The machine-dependent hooks
  \<^verbatim>\<open>pmap_md_xtab_activate\<close> and \<^verbatim>\<open>pmap_md_xtab_deactivate\<close> do not touch them; whether the
  pmap is \<^verbatim>\<open>pmap_kernel()\<close> and whether the thread is \<^verbatim>\<open>curlwp\<close> are arguments.
\<close>

record (overloaded) 'a cpu_info =
  ci_pmap_user_segtab :: "'a word"
  ci_pmap_user_seg0tab :: "'a word"

definition pmap_segtab_activate ::
  "'a::len config \<Rightarrow> 'a pmap \<Rightarrow> bool \<Rightarrow> bool \<Rightarrow> 'a kstate \<Rightarrow> 'a cpu_info \<Rightarrow> 'a cpu_info" where
  "pmap_segtab_activate cfg pm is_kernel is_curlwp s ci =
     (if is_curlwp then
        (if is_kernel then
           (let ci1 = ci\<lparr>ci_pmap_user_segtab := PMAP_INVALID_SEGTAB_ADDRESS cfg\<rparr>
            in if LP64 cfg then ci1\<lparr>ci_pmap_user_seg0tab := PMAP_INVALID_SEGTAB_ADDRESS cfg\<rparr> else ci1)
         else
           (let ci1 = ci\<lparr>ci_pmap_user_segtab := pm_segtab pm\<rparr>
            in if LP64 cfg then ci1\<lparr>ci_pmap_user_seg0tab := seg_heap s (pm_segtab pm) 0\<rparr> else ci1))
      else ci)"

definition pmap_segtab_deactivate :: "'a::len config \<Rightarrow> 'a cpu_info \<Rightarrow> 'a cpu_info" where
  "pmap_segtab_deactivate cfg ci =
     (let ci1 = ci\<lparr>ci_pmap_user_segtab := PMAP_INVALID_SEGTAB_ADDRESS cfg\<rparr>
      in if LP64 cfg then ci1\<lparr>ci_pmap_user_seg0tab := 0\<rparr> else ci1)"

section \<open>Range walker\<close>

text \<open>
  The \<^verbatim>\<open>while\<close> loop of \<^verbatim>\<open>pmap_pte_process\<close>.  The callback is called through the
  pointer without a test, so here it is a callback, not an optional one.
\<close>

partial_function (option) pmap_pte_process ::
  "'a::len config \<Rightarrow> 'a pmap \<Rightarrow> 'a word \<Rightarrow> 'a word \<Rightarrow> 'a pte_callback \<Rightarrow> 'a word \<Rightarrow>
   'a kstate \<Rightarrow> 'a kstate option" where
  "pmap_pte_process cfg pmap sva eva callback flags s =
     (if sva < eva then
        (let lastseg_va0 = pmap_trunc_seg cfg sva + NBSEG cfg;
             lastseg_va = (if lastseg_va0 = 0 \<or> lastseg_va0 > eva then eva else lastseg_va0);
             ptep = pmap_pte_lookup cfg pmap s sva;
             s1 = (if ptep \<noteq> 0 then invoke_callback callback pmap sva lastseg_va ptep flags s
                   else s)
         in pmap_pte_process cfg pmap lastseg_va eva callback flags s1)
      else Some s)"

section \<open>Reserve\<close>

text \<open>\<^verbatim>\<open>atomic_cas_ptr\<close> on slot \<open>i\<close> of \<open>stb\<close>: the old value is returned, and the new one is
  stored if the old one is the expected one.\<close>

definition atomic_cas_ptr ::
  "'a word \<Rightarrow> nat \<Rightarrow> 'a word \<Rightarrow> 'a word \<Rightarrow> 'a kstate \<Rightarrow> 'a word \<times> 'a kstate" where
  "atomic_cas_ptr stb i expected new s =
     (let old = seg_heap s stb i
      in (old, if old = expected then seg_store stb i new s else s))"

text \<open>The \<^verbatim>\<open>_LP64\<close> block of \<^verbatim>\<open>pmap_pte_reserve\<close>: it yields the bottom-level segtab for
  \<open>va\<close>, allocating and publishing it when the slot of the root is null.\<close>

definition reserve_segtab ::
  "'a::len config \<Rightarrow> 'a pmap \<Rightarrow> 'a word \<Rightarrow> 'a kstate \<Rightarrow> (panic + ('a word \<times> 'a kstate)) option" where
  "reserve_segtab cfg pmap va s =
     (if LP64 cfg then
        (if seg_heap s (pm_segtab pmap) (xseg_index cfg va) = 0 then
           Option.bind (pmap_segtab_alloc cfg s)
             (\<lambda>r. case r of
                     Inl e \<Rightarrow> Some (Inl e)
                   | Inr (nstb, s1) \<Rightarrow>
                       if MULTIPROCESSOR cfg then
                         (case atomic_cas_ptr (pm_segtab pmap) (xseg_index cfg va) 0 nstb s1 of
                            (ostb, s2) \<Rightarrow>
                              if ostb \<noteq> 0 then
                                (case pmap_check_stb cfg s2 nstb of
                                   Inl e \<Rightarrow> Some (Inl e)
                                 | Inr _ \<Rightarrow> Some (Inr (ostb, pmap_segtab_free nstb s2)))
                              else Some (Inr (nstb, s2)))
                       else Some (Inr (nstb, seg_store (pm_segtab pmap) (xseg_index cfg va) nstb s1)))
         else Some (Inr (seg_heap s (pm_segtab pmap) (xseg_index cfg va), s)))
      else Some (Inr (pm_segtab pmap, s)))"

text \<open>The leaf-page cache pop of \<^verbatim>\<open>pmap_pte_reserve\<close> (\<^verbatim>\<open>PMAP_PTP_CACHE\<close> only).\<close>

definition ptp_cache_get :: "'a::len config \<Rightarrow> 'a kstate \<Rightarrow> 'a word \<times> 'a kstate" where
  "ptp_cache_get cfg s =
     (if PMAP_PTP_CACHE cfg then
        (let pg = (case ptp_pgflist s of [] \<Rightarrow> 0 | p # _ \<Rightarrow> p)
         in if pg \<noteq> 0 then (pg, s\<lparr>ptp_pgflist := tl (ptp_pgflist s)\<rparr>) else (pg, s))
      else (0, s))"

text \<open>The page the reserve engine gets for a leaf: from the cache, else from the
  allocator; null when both fail.\<close>

definition reserve_page :: "'a::len config \<Rightarrow> 'a kstate \<Rightarrow> 'a word \<times> 'a kstate" where
  "reserve_page cfg s =
     (case ptp_cache_get cfg s of
        (pg, s1) \<Rightarrow> if pg = 0 then pmap_pte_pagealloc cfg s1 else (pg, s1))"

text \<open>The rest of the slow path: the page is published in slot \<open>seg_index va\<close> of the
  bottom-level segtab \<open>stb\<close>.\<close>

definition reserve_leaf ::
  "'a::len config \<Rightarrow> 'a word \<Rightarrow> 'a word \<Rightarrow> 32 word \<Rightarrow> 'a kstate \<Rightarrow>
   panic + ('a word \<times> 'a kstate)" where
  "reserve_leaf cfg stb va flags s =
     (case reserve_page cfg s of
        (pg, s2) \<Rightarrow>
          if pg = 0 then
            (if flags AND PMAP_CANFAIL cfg \<noteq> 0 then Inr (0, s2) else Inl PanicNoPage)
          else
            (let pa = VM_PAGE_TO_PHYS pg;
                 pte = PMAP_MAP_POOLPAGE pa
             in case (if MULTIPROCESSOR cfg then
                        (case atomic_cas_ptr stb (seg_index cfg va) 0 pte s2 of
                           (opte, s3) \<Rightarrow>
                             if opte \<noteq> 0 then
                               (opte,
                                if PMAP_PTP_CACHE cfg then s3\<lparr>ptp_pgflist := pg # ptp_pgflist s3\<rparr>
                                else uvm_pagefree pg s3)
                             else (pte, s3))
                      else (pte, seg_store stb (seg_index cfg va) pte s2)) of
                  (pte', s4) \<Rightarrow>
                    (case pmap_check_ptes cfg s4 pte' of
                       Inl e \<Rightarrow> Inl e
                     | Inr _ \<Rightarrow> Inr (pte' + of_nat (sizeof_pte cfg) * pte_index cfg va, s4))))"

definition pmap_pte_reserve ::
  "'a::len config \<Rightarrow> 'a pmap \<Rightarrow> 'a word \<Rightarrow> 32 word \<Rightarrow> 'a kstate \<Rightarrow>
   (panic + ('a word \<times> 'a kstate)) option" where
  "pmap_pte_reserve cfg pmap va flags s =
     (if pmap_pte_lookup cfg pmap s va = 0 then
        Option.bind (reserve_segtab cfg pmap va s)
          (\<lambda>r. case r of
                  Inl e \<Rightarrow> Some (Inl e)
                | Inr (stb, s1) \<Rightarrow> Some (reserve_leaf cfg stb va flags s1))
      else Some (Inr (pmap_pte_lookup cfg pmap s va, s)))"

section \<open>Sub-ranges of the range walker\<close>

text \<open>
  Three functions that describe what \<^verbatim>\<open>pmap_pte_process\<close> does: the end of the sub-range
  that starts at \<open>va\<close> (the value of \<^verbatim>\<open>lastseg_va\<close> in the source), the starts of the
  sub-ranges of \<open>[sva, eva)\<close> in order, and the calls made on them.
\<close>

definition span_end :: "'a::len config \<Rightarrow> 'a word \<Rightarrow> 'a word \<Rightarrow> 'a word" where
  "span_end cfg eva va =
     (let lastseg_va = pmap_trunc_seg cfg va + NBSEG cfg
      in if lastseg_va = 0 \<or> lastseg_va > eva then eva else lastseg_va)"

definition span_starts :: "'a::len config \<Rightarrow> 'a word \<Rightarrow> 'a word \<Rightarrow> 'a word list" where
  "span_starts cfg sva eva =
     (if sva < eva
      then sva # map (\<lambda>k. of_nat (k * unat (NBSEG cfg)))
                   [unat sva div unat (NBSEG cfg) + 1 ..<
                    (unat eva + unat (NBSEG cfg) - 1) div unat (NBSEG cfg)]
      else [])"

definition process_calls ::
  "'a::len config \<Rightarrow> 'a pmap \<Rightarrow> 'a kstate \<Rightarrow> 'a word \<Rightarrow> 'a word \<Rightarrow> 'a word \<Rightarrow>
   ('a word \<times> 'a word \<times> 'a word \<times> 'a word) list" where
  "process_calls cfg pmap s sva eva flags =
     map (\<lambda>va. (va, span_end cfg eva va, pmap_pte_lookup cfg pmap s va, flags))
       (filter (\<lambda>va. pmap_pte_lookup cfg pmap s va \<noteq> 0) (span_starts cfg sva eva))"

definition seg_populated :: "'a::len config \<Rightarrow> 'a pmap \<Rightarrow> 'a kstate \<Rightarrow> nat \<Rightarrow> bool" where
  "seg_populated cfg pmap s k \<longleftrightarrow> pmap_segmap cfg pmap s (of_nat (k * unat (NBSEG cfg))) \<noteq> 0"

text \<open>A callback that leaves every page-table entry as it is.\<close>

definition nop_callback :: "'a pte_callback" where
  "nop_callback pmap va_start va_end pte flags h = h"

section \<open>The invariant of the directory-node pool\<close>

text \<open>A segtab with no slot in use, and the segtabs on the free list: those reached from
  \<^verbatim>\<open>free_segtab\<close> through the links in slot 0.\<close>

definition stb_empty :: "'a::len config \<Rightarrow> 'a kstate \<Rightarrow> 'a word \<Rightarrow> bool" where
  "stb_empty cfg s stb \<longleftrightarrow> list_all (\<lambda>i. seg_heap s stb i = 0) [0..<PMAP_SEGTABSIZE cfg]"

inductive on_freelist :: "('a::len word \<Rightarrow> nat \<Rightarrow> 'a word) \<Rightarrow> 'a word \<Rightarrow> 'a word \<Rightarrow> bool"
  for h :: "'a::len word \<Rightarrow> nat \<Rightarrow> 'a word" and head :: "'a word" where
  head: "head \<noteq> 0 \<Longrightarrow> on_freelist h head head"
| link: "on_freelist h head x \<Longrightarrow> h x 0 \<noteq> 0 \<Longrightarrow> on_freelist h head (h x 0)"

text \<open>The invariant of the pool: a free segtab uses slot 0 only.\<close>

definition pool_ok :: "'a::len config \<Rightarrow> 'a kstate \<Rightarrow> bool" where
  "pool_ok cfg s \<longleftrightarrow>
     (\<forall>x. on_freelist (seg_heap s) (free_segtab s) x \<longrightarrow>
          (\<forall>i. 0 < i \<and> i < PMAP_SEGTABSIZE cfg \<longrightarrow> seg_heap s x i = 0))"

text \<open>The state after \<^verbatim>\<open>pmap_segtab_alloc\<close> has taken the page \<open>pg\<close> from the page
  allocator and diced it.\<close>

definition fresh_segtab_state :: "'a::len config \<Rightarrow> 'a word \<Rightarrow> 'a kstate \<Rightarrow> 'a kstate" where
  "fresh_segtab_state cfg pg s =
     (if segtabs_per_page cfg > 1
      then segtab_link_page cfg pg (segtabs_per_page cfg) (zero_page cfg pg (s\<lparr>uvm_pages := tl (uvm_pages s)\<rparr>))
      else zero_page cfg pg (s\<lparr>uvm_pages := tl (uvm_pages s)\<rparr>))"
section \<open>Well-formed directories\<close>

text \<open>
  The segtabs below the root (three-level layout only), the segtabs of the bottom level,
  all segtabs of the directory, the bottom-level slots that hold a leaf, and the leaves.
\<close>

definition children :: "'a::len config \<Rightarrow> 'a pmap \<Rightarrow> 'a kstate \<Rightarrow> 'a word set" where
  "children cfg pmap s =
     (if LP64 cfg
      then {c. c \<noteq> 0 \<and> (\<exists>i < NSEGPG cfg. seg_heap s (pm_segtab pmap) i = c)}
      else {})"

definition bottoms :: "'a::len config \<Rightarrow> 'a pmap \<Rightarrow> 'a kstate \<Rightarrow> 'a word set" where
  "bottoms cfg pmap s = (if LP64 cfg then children cfg pmap s else {pm_segtab pmap})"

definition live_segtabs :: "'a::len config \<Rightarrow> 'a pmap \<Rightarrow> 'a kstate \<Rightarrow> 'a word set" where
  "live_segtabs cfg pmap s = insert (pm_segtab pmap) (children cfg pmap s)"

definition leaf_slots :: "'a::len config \<Rightarrow> 'a pmap \<Rightarrow> 'a kstate \<Rightarrow> ('a word \<times> nat) set" where
  "leaf_slots cfg pmap s =
     {(b, i). b \<in> bottoms cfg pmap s \<and> i < PMAP_SEGTABSIZE cfg \<and> seg_heap s b i \<noteq> 0}"

definition leaves :: "'a::len config \<Rightarrow> 'a pmap \<Rightarrow> 'a kstate \<Rightarrow> 'a word set" where
  "leaves cfg pmap s = (\<lambda>(b, i). seg_heap s b i) ` leaf_slots cfg pmap s"

text \<open>The free list as a list: \<open>seg_chain h p xs\<close> holds when the links in slot 0 lead from
  \<open>p\<close> through the segtabs \<open>xs\<close> to the null pointer.\<close>

fun seg_chain :: "('a::len word \<Rightarrow> nat \<Rightarrow> 'a word) \<Rightarrow> 'a word \<Rightarrow> 'a word list \<Rightarrow> bool" where
  "seg_chain h p [] \<longleftrightarrow> p = 0"
| "seg_chain h p (x # xs) \<longleftrightarrow> p = x \<and> x \<noteq> 0 \<and> seg_chain h (h x 0) xs"

definition free_page_segtabs :: "'a::len config \<Rightarrow> 'a kstate \<Rightarrow> 'a word list" where
  "free_page_segtabs cfg s = concat (map (page_segtabs cfg) (uvm_pages s))"

text \<open>
  Well-formedness of the directory of a pmap: the root is not null; under the three-level
  layout no two slots of the root hold the same segtab and none holds the root; no two
  bottom-level slots hold the same leaf, and every leaf is page-aligned.
\<close>

definition tree_ok :: "'a::len config \<Rightarrow> 'a pmap \<Rightarrow> 'a kstate \<Rightarrow> bool" where
  "tree_ok cfg pmap s \<longleftrightarrow>
     pm_segtab pmap \<noteq> 0 \<and>
     pm_segtab pmap \<notin> children cfg pmap s \<and>
     (LP64 cfg \<longrightarrow>
        inj_on (seg_heap s (pm_segtab pmap)) {i. i < NSEGPG cfg \<and> seg_heap s (pm_segtab pmap) i \<noteq> 0}) \<and>
     inj_on (\<lambda>(b, i). seg_heap s b i) (leaf_slots cfg pmap s) \<and>
     (\<forall>p \<in> leaves cfg pmap s. p AND PAGE_MASK cfg = 0)"

text \<open>
  Separation of the pools from the directory: the free list \<open>fl\<close> is a proper list of
  segtabs that use slot 0 only, the segtabs of the free list and of the free pages are
  distinct, and none of them is a segtab of the directory.
\<close>

definition pool_sep :: "'a::len config \<Rightarrow> 'a pmap \<Rightarrow> 'a kstate \<Rightarrow> 'a word list \<Rightarrow> bool" where
  "pool_sep cfg pmap s fl \<longleftrightarrow>
     seg_chain (seg_heap s) (free_segtab s) fl \<and>
     distinct (fl @ free_page_segtabs cfg s) \<and>
     set (fl @ free_page_segtabs cfg s) \<inter> live_segtabs cfg pmap s = {} \<and>
     (\<forall>x \<in> set fl. \<forall>i. 0 < i \<and> i < PMAP_SEGTABSIZE cfg \<longrightarrow> seg_heap s x i = 0)"

text \<open>Separation of the pages: the cached and the free pages are distinct, the free pages
  are not null and page-aligned, and no cached or free page is a leaf of the directory.\<close>

definition pages_sep :: "'a::len config \<Rightarrow> 'a pmap \<Rightarrow> 'a kstate \<Rightarrow> bool" where
  "pages_sep cfg pmap s \<longleftrightarrow>
     distinct (ptp_pgflist s @ uvm_pages s) \<and>
     (\<forall>p \<in> set (uvm_pages s). p \<noteq> 0 \<and> p AND PAGE_MASK cfg = 0) \<and>
     set (ptp_pgflist s @ uvm_pages s) \<inter> leaves cfg pmap s = {}"

definition kernel_ok :: "'a::len config \<Rightarrow> 'a pmap \<Rightarrow> 'a kstate \<Rightarrow> bool" where
  "kernel_ok cfg pmap s \<longleftrightarrow>
     tree_ok cfg pmap s \<and> (\<exists>fl. pool_sep cfg pmap s fl) \<and> pages_sep cfg pmap s"

definition freelist_pop_state :: "'a::len kstate \<Rightarrow> 'a kstate" where
  "freelist_pop_state s =
     s\<lparr>free_segtab := seg_heap s (free_segtab s) 0,
       seg_heap := (seg_heap s)(free_segtab s := (seg_heap s (free_segtab s))(0 := 0))\<rparr>"

section \<open>The span of the directory\<close>


section \<open>Sequences of operations\<close>

text \<open>
  A sequence of operations on the directory of one pmap, without teardown:
  \<open>Reserve va flags\<close> stands for \<^verbatim>\<open>pmap_pte_reserve(pmap, va, flags)\<close> and \<open>Lookup va\<close> for
  \<^verbatim>\<open>pmap_pte_lookup(pmap, va)\<close>.  \<open>run_ops\<close> runs the sequence from left to right; a lookup
  reads the state and leaves it as it is, and a panic ends the run.
\<close>

datatype ('v, 'f) dir_op = Reserve 'v 'f | Lookup 'v

fun run_ops ::
  "'a::len config \<Rightarrow> 'a pmap \<Rightarrow> ('a word, 32 word) dir_op list \<Rightarrow> 'a kstate \<Rightarrow>
   (panic + 'a kstate) option" where
  "run_ops cfg pmap [] s = Some (Inr s)"
| "run_ops cfg pmap (Reserve va flags # ops) s =
     Option.bind (pmap_pte_reserve cfg pmap va flags s)
       (\<lambda>r. case r of
               Inl e \<Rightarrow> Some (Inl e)
             | Inr (pte, s1) \<Rightarrow> run_ops cfg pmap ops s1)"
| "run_ops cfg pmap (Lookup va # ops) s =
     (let pte = pmap_pte_lookup cfg pmap s va in run_ops cfg pmap ops s)"

section \<open>Teardown: lists of segtabs and leaves\<close>

text \<open>
  The non-null pointers in the slots \<open>i, i + 1, \<dots>\<close> of the segtab \<open>b\<close>, in the order of the
  slots (the leaves of a bottom-level segtab, the segtabs below a root); a leaf whose
  entries are all zero; and a callback that zeroes every entry of the leaf it is
  handed and leaves every other leaf as it is.
\<close>

definition slot_ptrs :: "'a::len config \<Rightarrow> 'a kstate \<Rightarrow> 'a word \<Rightarrow> nat \<Rightarrow> 'a word list" where
  "slot_ptrs cfg s b i = filter (\<lambda>p. p \<noteq> 0) (map (seg_heap s b) [i..<PMAP_SEGTABSIZE cfg])"

definition leaf_zero :: "'a::len config \<Rightarrow> 'a kstate \<Rightarrow> 'a word \<Rightarrow> bool" where
  "leaf_zero cfg s p \<longleftrightarrow> list_all (\<lambda>n. pte_heap s p n = 0) [0..<NPTEPG cfg]"

definition zeroing :: "'a::len config \<Rightarrow> 'a pte_callback \<Rightarrow> bool" where
  "zeroing cfg cb \<longleftrightarrow>
     (\<forall>pmap va_start va_end pte flags h.
        (\<forall>n < NPTEPG cfg. cb pmap va_start va_end pte flags h pte n = 0) \<and>
        (\<forall>q. q \<noteq> pte \<longrightarrow> cb pmap va_start va_end pte flags h q = h q))"

text \<open>The pages that teardown gives back are pushed, one after the other, onto the leaf-page
  cache, or onto the free pages of the allocator when there is no cache.\<close>

definition pages_given :: "'a::len config \<Rightarrow> 'a word list \<Rightarrow> 'a kstate \<Rightarrow> 'a kstate \<Rightarrow> bool" where
  "pages_given cfg ps s s' \<longleftrightarrow>
     (if PMAP_PTP_CACHE cfg
      then ptp_pgflist s' = rev ps @ ptp_pgflist s \<and> uvm_pages s' = uvm_pages s
      else uvm_pages s' = rev ps @ uvm_pages s \<and> ptp_pgflist s' = ptp_pgflist s)"

text \<open>The segtabs of the bottom level in the order of the slots of the root, and the leaves
  in the order of the slots.\<close>

definition bottom_list :: "'a::len config \<Rightarrow> 'a pmap \<Rightarrow> 'a kstate \<Rightarrow> 'a word list" where
  "bottom_list cfg pmap s =
     (if LP64 cfg then slot_ptrs cfg s (pm_segtab pmap) 0 else [pm_segtab pmap])"

definition leaf_list :: "'a::len config \<Rightarrow> 'a pmap \<Rightarrow> 'a kstate \<Rightarrow> 'a word list" where
  "leaf_list cfg pmap s = concat (map (\<lambda>c. slot_ptrs cfg s c 0) (bottom_list cfg pmap s))"

definition child_list :: "'a::len config \<Rightarrow> 'a pmap \<Rightarrow> 'a kstate \<Rightarrow> 'a word list" where
  "child_list cfg pmap s = (if LP64 cfg then slot_ptrs cfg s (pm_segtab pmap) 0 else [])"

text \<open>The callback that zeroes the leaf it is handed.\<close>

definition zero_callback :: "'a::len config \<Rightarrow> 'a pte_callback" where
  "zero_callback cfg pmap va_start va_end pte flags h =
     h(pte := (\<lambda>n. if n < NPTEPG cfg then 0 else h pte n))"

text \<open>The first \<open>n\<close> segtabs of the free list that starts at \<open>p\<close>.\<close>

fun freelist_prefix :: "nat \<Rightarrow> ('a::len word \<Rightarrow> nat \<Rightarrow> 'a word) \<Rightarrow> 'a word \<Rightarrow> 'a word list" where
  "freelist_prefix n h p =
     (if n = 0 \<or> p = 0 then [] else p # freelist_prefix (n - 1) h (h p 0))"

declare freelist_prefix.simps [simp del]

text \<open>What a caller of \<^verbatim>\<open>pmap_segtab_destroy\<close> finds afterwards: the root pointer of the pmap,
  the free list of segtabs (its first \<open>n\<close> entries), and the leaf-page cache.\<close>

definition destroy_view ::
  "nat \<Rightarrow> 'a::len pmap \<times> 'a kstate \<Rightarrow> 'a word \<times> 'a word list \<times> 'a word list" where
  "destroy_view n ps =
     (pm_segtab (fst ps), freelist_prefix n (seg_heap (snd ps)) (free_segtab (snd ps)),
      ptp_pgflist (snd ps))"


section \<open>Concrete configurations and states\<close>

text \<open>
  The two-level layout of the scenarios of the specification (\<^verbatim>\<open>PMAP_SEGTABSIZE = 512\<close>,
  \<^verbatim>\<open>NPTEPG = 512\<close>, \<^verbatim>\<open>PAGE_SIZE = 4096\<close>) on a 32-bit machine, and a small three-level
  layout with multiprocessor support, the leaf-page cache and the debugging checks.
\<close>

definition spec_cfg :: "32 config" where
  "spec_cfg = \<lparr>LP64 = False, MULTIPROCESSOR = False, PMAP_PTP_CACHE = True, DEBUG = False,
     PGSHIFT = 12, SEGSHIFT = 21, XSEGSHIFT = 30, PMAP_SEGTABSIZE = 512, NSEGPG = 512,
     NPTEPG = 512, sizeof_segtab = 2048, sizeof_pte = 8, PMAP_CANFAIL = 0x20,
     PMAP_INVALID_SEGTAB_ADDRESS = 0xdeadbeef\<rparr>"

definition cfg3 :: "16 config" where
  "cfg3 = \<lparr>LP64 = True, MULTIPROCESSOR = True, PMAP_PTP_CACHE = True, DEBUG = True,
     PGSHIFT = 4, SEGSHIFT = 6, XSEGSHIFT = 8, PMAP_SEGTABSIZE = 4, NSEGPG = 4,
     NPTEPG = 4, sizeof_segtab = 8, sizeof_pte = 4, PMAP_CANFAIL = 0x20,
     PMAP_INVALID_SEGTAB_ADDRESS = 0xdead\<rparr>"

text \<open>The state at boot: empty pools, zeroed memory, and the given free pages.\<close>

definition boot_state :: "'a::len word list \<Rightarrow> 'a kstate" where
  "boot_state pages = \<lparr>seg_heap = (\<lambda>_ _. 0), pte_heap = (\<lambda>_ _. 0), free_segtab = 0,
     ptp_pgflist = [], uvm_pages = pages, cb_log = []\<rparr>"

text \<open>A two-level directory with one leaf in slot 2 of the root.\<close>

definition leaf_state32 :: "32 kstate" where
  "leaf_state32 =
     (boot_state []) \<lparr>seg_heap := (\<lambda>_ _. 0)(0x80010000 := (\<lambda>_. 0)(2 := 0x80020000))\<rparr>"

definition root32 :: "32 pmap" where
  "root32 = \<lparr>pm_segtab = 0x80010000, pm_minaddr = 0\<rparr>"

text \<open>A three-level directory: slot 1 of the root holds a segtab with one leaf in slot 3.\<close>

definition tree_state16 :: "16 kstate" where
  "tree_state16 =
     (boot_state []) \<lparr>seg_heap := (\<lambda>_ _. 0)(0x100 := (\<lambda>_. 0)(1 := 0x108),
                                               0x108 := (\<lambda>_. 0)(3 := 0x200))\<rparr>"

definition root16 :: "16 pmap" where
  "root16 = \<lparr>pm_segtab = 0x100, pm_minaddr = 0\<rparr>"

text \<open>The same directory with a second leaf in slot 3.\<close>

definition two_leaf_state32 :: "32 kstate" where
  "two_leaf_state32 =
     (boot_state []) \<lparr>seg_heap := (\<lambda>_ _. 0)(0x80010000 := (\<lambda>_. 0)(2 := 0x80020000, 3 := 0x80021000))\<rparr>"
text \<open>States with free pages, and the states that reserving entries in them leaves.\<close>

definition page_state32 :: "32 kstate" where
  "page_state32 = boot_state [0x80030000]"

definition reserved_state32 :: "32 kstate" where
  "reserved_state32 =
     seg_store 0x80010000 2 0x80030000 (zero_page spec_cfg 0x80030000 (boot_state []))"

definition pages_state16 :: "16 kstate" where
  "pages_state16 = boot_state [0x300, 0x400, 0x500]"

definition reserved_state16 :: "16 kstate" where
  "reserved_state16 =
     seg_store 0x300 1 0x400
       (zero_page cfg3 0x400
          ((seg_store 0x100 1 0x300 (fresh_segtab_state cfg3 0x300 pages_state16))
             \<lparr>uvm_pages := [0x500]\<rparr>))"

definition reserved_state16' :: "16 kstate" where
  "reserved_state16' =
     seg_store 0x300 2 0x500 (zero_page cfg3 0x500 (reserved_state16\<lparr>uvm_pages := []\<rparr>))"


section \<open>Basic facts\<close>

lemma spec_cfg_ok: "config_ok spec_cfg"
  by code_simp

lemma cfg3_ok: "config_ok cfg3"
  by code_simp

lemma config_okD:
  assumes "config_ok cfg"
  shows "PGSHIFT cfg < SEGSHIFT cfg"
    and "NPTEPG cfg = 2 ^ (SEGSHIFT cfg - PGSHIFT cfg)"
    and "0 < sizeof_pte cfg"
    and "sizeof_pte cfg * NPTEPG cfg \<le> 2 ^ PGSHIFT cfg"
    and "0 < sizeof_segtab cfg"
    and "sizeof_segtab cfg \<le> 2 ^ PGSHIFT cfg"
  using assms unfolding config_ok_def by blast+

lemma config_ok_SEGSHIFT_lt: "config_ok (cfg :: 'a::len config) \<Longrightarrow> SEGSHIFT cfg < LENGTH('a)"
  by (auto simp: config_ok_def split: if_splits)


lemma config_ok_PGSHIFT_lt: "config_ok (cfg :: 'a::len config) \<Longrightarrow> PGSHIFT cfg < LENGTH('a)"
  by (auto simp: config_ok_def split: if_splits)

lemma unat_2p: "n < LENGTH('a) \<Longrightarrow> unat (2 ^ n :: 'a::len word) = 2 ^ n"
  by (simp add: of_nat_inverse)

lemma NBPG_eq: "NBPG cfg = 2 ^ PGSHIFT cfg"
  by (simp add: NBPG_def)

lemma NBSEG_eq: "config_ok cfg \<Longrightarrow> NBSEG cfg = 2 ^ SEGSHIFT cfg"
  by (simp add: NBSEG_def NBPG_eq config_ok_def flip: power_add)

lemma unat_NBSEG: "config_ok cfg \<Longrightarrow> unat (NBSEG cfg) = 2 ^ SEGSHIFT cfg"
  by (simp add: NBSEG_eq config_ok_SEGSHIFT_lt unat_2p)

lemma and_not_mask_push_drop: "(w :: 'a::len word) AND NOT (mask n) = push_bit n (drop_bit n w)"
  by (rule bit_word_eqI) (auto simp: bit_simps)

lemma unat_and_not_mask: "unat ((w :: 'a::len word) AND NOT (mask n)) = unat w div 2 ^ n * 2 ^ n"
proof -
  have le: "unat w div 2 ^ n * 2 ^ n \<le> unat w"
    by (rule div_times_less_eq_dividend)
  have "unat w < 2 ^ LENGTH('a)"
    by simp
  with le have lt: "unat w div 2 ^ n * 2 ^ n < 2 ^ LENGTH('a)"
    by (rule le_less_trans)
  show ?thesis
    using lt
    by (simp add: and_not_mask_push_drop unsigned_push_bit_eq unat_drop_bit_eq
        push_bit_nat_def drop_bit_nat_def take_bit_nat_def)
qed

lemma unat_trunc_seg:
  "config_ok cfg \<Longrightarrow> unat (pmap_trunc_seg cfg va) = unat va div 2 ^ SEGSHIFT cfg * 2 ^ SEGSHIFT cfg"
  by (simp add: pmap_trunc_seg_def NBSEG_eq unat_and_not_mask flip: mask_eq_decr_exp)

lemma NPTEPG_mask:
  "config_ok cfg \<Longrightarrow> (of_nat (NPTEPG cfg) - 1 :: 'a::len word) = mask (SEGSHIFT cfg - PGSHIFT cfg)"
  by (simp add: config_ok_def mask_eq_decr_exp)

lemma pte_index_eq:
  "config_ok cfg \<Longrightarrow> pte_index cfg va = take_bit (SEGSHIFT cfg - PGSHIFT cfg) (drop_bit (PGSHIFT cfg) va)"
  by (simp add: pte_index_def NPTEPG_mask take_bit_eq_mask)

lemma unat_pte_index_less:
  fixes cfg :: "'a::len config"
  assumes "config_ok cfg"
  shows "unat (pte_index cfg va) < NPTEPG cfg"
proof -
  have "unat (pte_index cfg va) = take_bit (SEGSHIFT cfg - PGSHIFT cfg) (unat (drop_bit (PGSHIFT cfg) va))"
    by (simp add: pte_index_eq [OF assms] unsigned_take_bit_eq)
  also have "\<dots> < 2 ^ (SEGSHIFT cfg - PGSHIFT cfg)"
    by (simp add: take_bit_nat_def)
  finally show ?thesis
    using assms by (simp add: config_ok_def)
qed

lemma unat_pte_offset:
  fixes cfg :: "'a::len config"
  assumes ok: "config_ok cfg"
  shows "unat (of_nat (sizeof_pte cfg) * pte_index cfg va :: 'a word)
           = sizeof_pte cfg * unat (pte_index cfg va)"
    and "sizeof_pte cfg * unat (pte_index cfg va) < 2 ^ PGSHIFT cfg"
proof -
  have P: "PGSHIFT cfg < LENGTH('a)"
    using ok by (rule config_ok_PGSHIFT_lt)
  have "sizeof_pte cfg * unat (pte_index cfg va) < sizeof_pte cfg * NPTEPG cfg"
    using config_okD(3) [OF ok] unat_pte_index_less [OF ok, of va] by simp
  also have "\<dots> \<le> 2 ^ PGSHIFT cfg"
    by (rule config_okD(4) [OF ok])
  finally show lt: "sizeof_pte cfg * unat (pte_index cfg va) < 2 ^ PGSHIFT cfg" .
  have "(2::nat) ^ PGSHIFT cfg < 2 ^ LENGTH('a)"
    using P by simp
  with lt have lt2: "sizeof_pte cfg * unat (pte_index cfg va) < 2 ^ LENGTH('a)"
    by (rule less_trans)
  have "(of_nat (sizeof_pte cfg) * pte_index cfg va :: 'a word)
          = of_nat (sizeof_pte cfg * unat (pte_index cfg va))"
    by simp
  then show "unat (of_nat (sizeof_pte cfg) * pte_index cfg va :: 'a word)
           = sizeof_pte cfg * unat (pte_index cfg va)"
    using lt2 by (simp only: unat_of_nat mod_less)
qed

lemma PAGE_MASK_eq: "PAGE_MASK cfg = mask (PGSHIFT cfg)"
  by (simp add: PAGE_MASK_def NBPG_eq mask_eq_decr_exp)

text \<open>Adding an offset below the page size to a page-aligned pointer does not wrap.\<close>

lemma unat_aligned_plus:
  fixes p off :: "'a::len word"
  assumes al: "p AND mask n = 0" and off: "unat off < 2 ^ n" and n: "n < LENGTH('a)"
  shows "unat (p + off) = unat p + unat off"
proof -
  have dvd: "2 ^ n dvd unat p"
    using al by (simp add: and_mask_dvd_nat)
  then obtain k where k: "unat p = 2 ^ n * k"
    by (auto simp: dvd_def)
  have pow: "(2::nat) ^ LENGTH('a) = 2 ^ n * 2 ^ (LENGTH('a) - n)"
    using n by (simp flip: power_add)
  have "unat p < 2 ^ LENGTH('a)"
    by simp
  then have "k < 2 ^ (LENGTH('a) - n)"
    unfolding k pow by simp
  then have "k + 1 \<le> 2 ^ (LENGTH('a) - n)"
    by simp
  then have "2 ^ n * (k + 1) \<le> 2 ^ n * 2 ^ (LENGTH('a) - n)"
    by (rule mult_le_mono2)
  then have "unat p + 2 ^ n \<le> 2 ^ LENGTH('a)"
    unfolding k pow by simp
  with off have "unat p + unat off < 2 ^ LENGTH('a)"
    by simp
  then show ?thesis
    by (simp add: unat_add_lem)
qed


lemma leaf_ptr_plus_nonzero:
  fixes cfg :: "'a::len config"
  assumes ok: "config_ok cfg" and nz: "p \<noteq> 0" and al: "p AND PAGE_MASK cfg = 0"
  shows "p + of_nat (sizeof_pte cfg) * pte_index cfg va \<noteq> 0"
proof -
  have "unat (p + of_nat (sizeof_pte cfg) * pte_index cfg va)
          = unat p + unat (of_nat (sizeof_pte cfg) * pte_index cfg va :: 'a word)"
    using al unat_pte_offset [OF ok, of va] config_ok_PGSHIFT_lt [OF ok]
    by (intro unat_aligned_plus [where n = "PGSHIFT cfg"]) (simp_all add: PAGE_MASK_eq)
  moreover have "unat p \<noteq> 0"
    using nz by (simp add: unat_eq_0)
  ultimately have "unat (p + of_nat (sizeof_pte cfg) * pte_index cfg va) \<noteq> 0"
    by simp
  then show ?thesis
    by (simp add: unat_eq_0)
qed

text \<open>A directory whose leaf pointers are page-aligned.\<close>

lemma pmap_pte_lookup_nonzero_iff:
  assumes "config_ok cfg" "pmap_segmap cfg pmap s va AND PAGE_MASK cfg = 0"
  shows "pmap_pte_lookup cfg pmap s va \<noteq> 0 \<longleftrightarrow> pmap_segmap cfg pmap s va \<noteq> 0"
  using leaf_ptr_plus_nonzero [OF assms(1) _ assms(2), of va]
  by (auto simp: pmap_pte_lookup_def Let_def)

section \<open>The range walker\<close>

text \<open>Arithmetic of segment boundaries on natural numbers.\<close>

lemma seg_next_le:
  fixes a :: nat
  assumes "0 < N" "a < K * N"
  shows "(a div N + 1) * N \<le> K * N"
proof -
  from assms have "a div N < K"
    by (simp add: less_mult_imp_div_less)
  then have "a div N + 1 \<le> K"
    by simp
  then show ?thesis
    by (rule mult_le_mono1)
qed

lemma seg_next_gt:
  fixes a :: nat
  assumes "0 < N"
  shows "a < (a div N + 1) * N"
  using dividend_less_div_times [OF assms, of a] by (simp add: ac_simps)

lemma seg_ceil_le:
  fixes a b :: nat
  assumes "0 < N" "b \<le> (k + 1) * N"
  shows "(b + N - 1) div N \<le> k + 1"
proof -
  from assms have "b + N - 1 < (k + 2) * N"
    by (simp add: algebra_simps)
  then have "(b + N - 1) div N < k + 2"
    by (simp add: less_mult_imp_div_less)
  then show ?thesis
    by simp
qed

lemma seg_ceil_gt:
  fixes b :: nat
  assumes "0 < N" "k * N < b"
  shows "k < (b + N - 1) div N"
proof -
  from assms have "(k + 1) * N \<le> b + N - 1"
    by (simp add: algebra_simps)
  then have "(k + 1) * N div N \<le> (b + N - 1) div N"
    by (rule div_le_mono)
  with assms(1) show ?thesis
    by simp
qed

lemma unat_next_seg:
  fixes cfg :: "'a::len config" and va :: "'a word"
  assumes ok: "config_ok cfg"
  defines "T \<equiv> (unat va div 2 ^ SEGSHIFT cfg + 1) * 2 ^ SEGSHIFT cfg"
  shows "(T = 2 ^ LENGTH('a) \<and> pmap_trunc_seg cfg va + NBSEG cfg = 0) \<or>
         (T < 2 ^ LENGTH('a) \<and> unat (pmap_trunc_seg cfg va + NBSEG cfg) = T)"
proof -
  let ?S = "SEGSHIFT cfg"
  have S: "?S < LENGTH('a)"
    using ok by (rule config_ok_SEGSHIFT_lt)
  have pow: "(2::nat) ^ LENGTH('a) = 2 ^ (LENGTH('a) - ?S) * 2 ^ ?S"
    using S by (simp flip: power_add)
  have "unat va < 2 ^ (LENGTH('a) - ?S) * 2 ^ ?S"
    using pow by (metis unsigned_less)
  then have le: "T \<le> 2 ^ LENGTH('a)"
    unfolding T_def pow by (intro seg_next_le) simp_all
  have sum: "unat (pmap_trunc_seg cfg va + NBSEG cfg) = T mod 2 ^ LENGTH('a)"
    by (simp add: unat_word_ariths unat_trunc_seg [OF ok] unat_NBSEG [OF ok] T_def algebra_simps)
  show ?thesis
  proof (cases "T = 2 ^ LENGTH('a)")
    case True
    with sum have "unat (pmap_trunc_seg cfg va + NBSEG cfg) = 0"
      by simp
    then have "pmap_trunc_seg cfg va + NBSEG cfg = 0"
      by (simp add: unat_eq_0)
    with True show ?thesis
      by simp
  next
    case False
    with le have "T < 2 ^ LENGTH('a)"
      by simp
    with sum show ?thesis
      by simp
  qed
qed

lemma span_end_cases:
  fixes cfg :: "'a::len config" and sva eva :: "'a word"
  assumes ok: "config_ok cfg" and lt: "sva < eva"
  defines "T \<equiv> (unat sva div 2 ^ SEGSHIFT cfg + 1) * 2 ^ SEGSHIFT cfg"
  shows "(unat eva \<le> T \<and> span_end cfg eva sva = eva) \<or>
         (T < unat eva \<and> unat (span_end cfg eva sva) = T)"
proof -
  let ?e = "pmap_trunc_seg cfg sva + NBSEG cfg"
  have cases: "(T = 2 ^ LENGTH('a) \<and> ?e = 0) \<or> (T < 2 ^ LENGTH('a) \<and> unat ?e = T)"
    unfolding T_def using ok by (rule unat_next_seg)
  have Tpos: "unat sva < T"
    unfolding T_def by (rule seg_next_gt) simp
  show ?thesis
  proof (cases "?e = 0")
    case True
    with cases Tpos have "T = 2 ^ LENGTH('a)"
      by auto
    moreover have "unat eva \<le> 2 ^ LENGTH('a)"
      by (rule less_imp_le) simp
    ultimately show ?thesis
      using True by (simp add: span_end_def)
  next
    case False
    with cases have T: "unat ?e = T"
      by auto
    show ?thesis
    proof (cases "?e > eva")
      case True
      then have "unat eva < T"
        using T by (simp add: word_less_nat_alt)
      with True show ?thesis
        by (simp add: span_end_def)
    next
      case gt: False
      then have le: "T \<le> unat eva"
        using T by (simp add: word_less_nat_alt not_less)
      have se: "span_end cfg eva sva = ?e"
        using False gt by (simp add: span_end_def Let_def)
      show ?thesis
      proof (cases "T = unat eva")
        case True
        with T have "?e = eva"
          by (simp add: word_unat_eq_iff)
        with se True show ?thesis
          by simp
      next
        case False
        with le have "T < unat eva"
          by simp
        with se T show ?thesis
          by simp
      qed
    qed
  qed
qed

lemma span_end_bounds:
  assumes "config_ok cfg" "sva < eva"
  shows "sva < span_end cfg eva sva \<and> span_end cfg eva sva \<le> eva"
proof -
  have "unat sva < (unat sva div 2 ^ SEGSHIFT cfg + 1) * 2 ^ SEGSHIFT cfg"
    by (rule seg_next_gt) simp
  with span_end_cases [OF assms] assms(2) show ?thesis
    by (auto simp: word_less_nat_alt word_le_nat_alt)
qed

lemma span_starts_step:
  fixes cfg :: "'a::len config" and sva eva :: "'a word"
  assumes ok: "config_ok cfg" and lt: "sva < eva"
  shows "span_starts cfg sva eva = sva # span_starts cfg (span_end cfg eva sva) eva"
proof -
  let ?N = "(2::nat) ^ SEGSHIFT cfg"
  let ?k = "unat sva div ?N"
  let ?T = "(?k + 1) * ?N"
  let ?M = "(unat eva + ?N - 1) div ?N"
  have N: "unat (NBSEG cfg) = ?N"
    using ok by (rule unat_NBSEG)
  have Npos: "0 < ?N"
    by simp
  from span_end_cases [OF ok lt]
  show ?thesis
  proof
    assume a: "unat eva \<le> ?T \<and> span_end cfg eva sva = eva"
    then have "?M \<le> ?k + 1"
      by (intro seg_ceil_le) simp_all
    then have "[?k + 1 ..< ?M] = []"
      by simp
    with a lt show ?thesis
      by (simp add: span_starts_def N)
  next
    assume a: "?T < unat eva \<and> unat (span_end cfg eva sva) = ?T"
    then have lt': "span_end cfg eva sva < eva"
      by (simp add: word_less_nat_alt)
    have kM: "?k + 1 < ?M"
      using a by (intro seg_ceil_gt) simp_all
    have div: "?T div ?N = ?k + 1"
      by simp
    have "(of_nat (unat (span_end cfg eva sva)) :: 'a word) = span_end cfg eva sva"
      by simp
    then have w: "(of_nat ?T :: 'a word) = span_end cfg eva sva"
      using a by simp
    have "[?k + 1 ..< ?M] = (?k + 1) # [?k + 1 + 1 ..< ?M]"
      using kM by (simp add: upt_conv_Cons)
    then have "span_starts cfg sva eva =
        sva # of_nat ?T # map (\<lambda>k. of_nat (k * ?N)) [?k + 1 + 1 ..< ?M]"
      using lt by (simp add: span_starts_def N algebra_simps)
    moreover have "span_starts cfg (span_end cfg eva sva) eva =
        span_end cfg eva sva # map (\<lambda>k. of_nat (k * ?N)) [?k + 1 + 1 ..< ?M]"
      using lt' a div by (simp add: span_starts_def N)
    ultimately show ?thesis
      using w by simp
  qed
qed

lemma pmap_pte_process_step:
  "pmap_pte_process cfg pmap sva eva callback flags s =
     (if sva < eva then
        pmap_pte_process cfg pmap (span_end cfg eva sva) eva callback flags
          (if pmap_pte_lookup cfg pmap s sva \<noteq> 0
           then invoke_callback callback pmap sva (span_end cfg eva sva)
                  (pmap_pte_lookup cfg pmap s sva) flags s
           else s)
      else Some s)"
  by (subst pmap_pte_process.simps) (simp add: span_end_def Let_def)

lemma pmap_pte_lookup_seg_heap:
  "seg_heap s' = seg_heap s \<Longrightarrow> pmap_pte_lookup cfg pmap s' = pmap_pte_lookup cfg pmap s"
  by (rule ext) (simp add: pmap_pte_lookup_def pmap_segmap_def Let_def)

lemma pmap_pte_process_log:
  fixes cfg :: "'a::len config"
  assumes ok: "config_ok cfg"
  shows "\<exists>s'. pmap_pte_process cfg pmap sva eva callback flags s = Some s' \<and>
              seg_heap s' = seg_heap s \<and> free_segtab s' = free_segtab s \<and>
              ptp_pgflist s' = ptp_pgflist s \<and> uvm_pages s' = uvm_pages s \<and>
              cb_log s' = cb_log s @ process_calls cfg pmap s sva eva flags"
proof (induction "unat eva - unat sva" arbitrary: sva s rule: less_induct)
  case less
  show ?case
  proof (cases "sva < eva")
    case False
    then show ?thesis
      by (subst pmap_pte_process_step) (simp add: process_calls_def span_starts_def)
  next
    case True
    let ?n = "span_end cfg eva sva"
    let ?s1 = "if pmap_pte_lookup cfg pmap s sva \<noteq> 0
           then invoke_callback callback pmap sva ?n (pmap_pte_lookup cfg pmap s sva) flags s
           else s"
    from span_end_bounds [OF ok True]
    have "unat eva - unat ?n < unat eva - unat sva"
      using True by (auto simp: word_less_nat_alt word_le_nat_alt)
    from less [OF this, of ?s1]
    obtain s' where s': "pmap_pte_process cfg pmap ?n eva callback flags ?s1 = Some s'"
      "seg_heap s' = seg_heap ?s1" "free_segtab s' = free_segtab ?s1"
      "ptp_pgflist s' = ptp_pgflist ?s1" "uvm_pages s' = uvm_pages ?s1"
      "cb_log s' = cb_log ?s1 @ process_calls cfg pmap ?s1 ?n eva flags"
      by blast
    have heap: "seg_heap ?s1 = seg_heap s"
      by (simp add: invoke_callback_def)
    have lk: "pmap_pte_lookup cfg pmap ?s1 = pmap_pte_lookup cfg pmap s"
      using heap by (rule pmap_pte_lookup_seg_heap)
    have calls: "process_calls cfg pmap ?s1 ?n eva flags = process_calls cfg pmap s ?n eva flags"
      by (simp only: process_calls_def lk)
    have "pmap_pte_process cfg pmap sva eva callback flags s = Some s'"
      using True s'(1) by (subst pmap_pte_process_step) simp
    moreover have "cb_log s' = cb_log s @ process_calls cfg pmap s sva eva flags"
      unfolding s'(6) calls
      by (simp add: process_calls_def [of cfg pmap s sva] span_starts_step [OF ok True]
          invoke_callback_def process_calls_def [of cfg pmap s ?n])
    ultimately show ?thesis
      using s'(2-5) by (simp add: invoke_callback_def)
  qed
qed

lemma seg_ceil_less:
  fixes b :: nat
  assumes "0 < N" "k < (b + N - 1) div N"
  shows "k * N < b"
proof -
  from assms(2) have "Suc k \<le> (b + N - 1) div N"
    by simp
  then have "Suc k * N \<le> (b + N - 1) div N * N"
    by (rule mult_le_mono1)
  also have "\<dots> \<le> b + N - 1"
    by (rule div_times_less_eq_dividend)
  finally show ?thesis
    using assms(1) by simp
qed

lemma unat_seg_start:
  fixes cfg :: "'a::len config" and eva :: "'a word"
  assumes ok: "config_ok cfg" and k: "k < (unat eva + 2 ^ SEGSHIFT cfg - 1) div 2 ^ SEGSHIFT cfg"
  shows "unat (of_nat (k * 2 ^ SEGSHIFT cfg) :: 'a word) = k * 2 ^ SEGSHIFT cfg"
proof -
  have "k * 2 ^ SEGSHIFT cfg < unat eva"
    using k by (intro seg_ceil_less) simp_all
  also have "unat eva < 2 ^ LENGTH('a)"
    by simp
  finally show ?thesis
    by (simp only: unat_of_nat mod_less)
qed

lemma span_starts_segs:
  fixes cfg :: "'a::len config" and sva eva :: "'a word"
  assumes ok: "config_ok cfg" and lt: "sva < eva"
  shows "map (\<lambda>va. unat va div unat (NBSEG cfg)) (span_starts cfg sva eva) =
         [unat sva div unat (NBSEG cfg) ..< (unat eva + unat (NBSEG cfg) - 1) div unat (NBSEG cfg)]"
proof -
  let ?N = "(2::nat) ^ SEGSHIFT cfg"
  let ?k = "unat sva div ?N"
  let ?M = "(unat eva + ?N - 1) div ?N"
  have N: "unat (NBSEG cfg) = ?N"
    using ok by (rule unat_NBSEG)
  have "?k * ?N \<le> unat sva"
    by (rule div_times_less_eq_dividend)
  also have "unat sva < unat eva"
    using lt by (simp add: word_less_nat_alt)
  finally have kM: "?k < ?M"
    by (intro seg_ceil_gt) simp_all
  have "map (\<lambda>va. unat va div ?N) (map (\<lambda>k. of_nat (k * ?N) :: 'a word) [?k + 1 ..< ?M])
          = map (\<lambda>k. k) [?k + 1 ..< ?M]"
    unfolding map_map
  proof (rule map_cong [OF refl])
    fix x assume "x \<in> set [?k + 1 ..< ?M]"
    then have "x < ?M"
      by simp
    from unat_seg_start [OF ok this] show "((\<lambda>va. unat va div ?N) \<circ> (\<lambda>k. of_nat (k * ?N) :: 'a word)) x = x"
      by simp
  qed
  then have "map (\<lambda>va. unat va div ?N) (span_starts cfg sva eva) = ?k # [?k + 1 ..< ?M]"
    using lt by (simp add: span_starts_def N)
  also have "\<dots> = [?k ..< ?M]"
    using kM by (simp add: upt_conv_Cons)
  finally show ?thesis
    by (simp only: N)
qed

lemma span_starts_sorted:
  fixes cfg :: "'a::len config" and sva eva :: "'a word"
  assumes ok: "config_ok cfg"
  shows "sorted_wrt (<) (span_starts cfg sva eva)"
proof (cases "sva < eva")
  case False
  then show ?thesis
    by (simp add: span_starts_def)
next
  case True
  let ?N = "(2::nat) ^ SEGSHIFT cfg"
  let ?k = "unat sva div ?N"
  let ?M = "(unat eva + ?N - 1) div ?N"
  let ?f = "\<lambda>k. of_nat (k * ?N) :: 'a word"
  have N: "unat (NBSEG cfg) = ?N"
    using ok by (rule unat_NBSEG)
  have u: "unat (?f x) = x * ?N" if "x < ?M" for x
    using unat_seg_start [OF ok that] .
  have tail: "sorted_wrt (<) (map ?f [?k + 1 ..< ?M])"
    unfolding sorted_wrt_map
  proof (rule sorted_wrt_mono_rel [OF _ sorted_wrt_upt])
    fix x y assume xy: "x \<in> set [?k + 1 ..< ?M]" "y \<in> set [?k + 1 ..< ?M]" "x < y"
    then have "x < ?M" "y < ?M"
      by simp_all
    then have "unat (?f x) = x * ?N" "unat (?f y) = y * ?N"
      by (simp_all only: u)
    then show "?f x < ?f y"
      using xy(3) by (simp only: word_less_nat_alt) simp
  qed
  have head: "sva < ?f x" if "x \<in> set [?k + 1 ..< ?M]" for x
  proof -
    have "unat sva < (?k + 1) * ?N"
      by (rule seg_next_gt) simp
    also have "\<dots> \<le> x * ?N"
      using that by (intro mult_le_mono1) simp
    finally have "unat sva < x * ?N" .
    moreover have "unat (?f x) = x * ?N"
      using that by (intro u) simp
    ultimately show ?thesis
      by (simp only: word_less_nat_alt)
  qed
  show ?thesis
    using True tail head by (auto simp: span_starts_def N)
qed

lemma drop_bit_and_not_mask:
  "m \<le> n \<Longrightarrow> drop_bit n ((w :: 'a::len word) AND NOT (mask m)) = drop_bit n w"
  by (rule bit_word_eqI) (auto simp: bit_simps dest: bit_imp_le_length)

lemma pmap_segmap_trunc_seg:
  assumes ok: "config_ok cfg"
  shows "pmap_segmap cfg pmap s (pmap_trunc_seg cfg va) = pmap_segmap cfg pmap s va"
proof -
  have t: "pmap_trunc_seg cfg va = va AND NOT (mask (SEGSHIFT cfg))"
    by (simp add: pmap_trunc_seg_def NBSEG_eq [OF ok] mask_eq_decr_exp)
  have "seg_index cfg (pmap_trunc_seg cfg va) = seg_index cfg va"
    by (simp only: seg_index_def t drop_bit_and_not_mask [OF order_refl])
  moreover have "xseg_index cfg (pmap_trunc_seg cfg va) = xseg_index cfg va" if "LP64 cfg"
  proof -
    have "SEGSHIFT cfg \<le> XSEGSHIFT cfg"
      using ok that by (simp add: config_ok_def)
    then show ?thesis
      by (simp only: xseg_index_def t drop_bit_and_not_mask)
  qed
  ultimately show ?thesis
    by (cases "LP64 cfg") (simp_all add: pmap_segmap_def Let_def)
qed

lemma seg_populated_iff:
  fixes cfg :: "'a::len config"
  assumes ok: "config_ok cfg"
  shows "seg_populated cfg pmap s (unat va div unat (NBSEG cfg)) \<longleftrightarrow> pmap_segmap cfg pmap s va \<noteq> 0"
proof -
  let ?N = "(2::nat) ^ SEGSHIFT cfg"
  have "unat (pmap_trunc_seg cfg va) = unat va div ?N * ?N"
    using ok by (rule unat_trunc_seg)
  then have "(of_nat (unat va div ?N * ?N) :: 'a word) = pmap_trunc_seg cfg va"
    by (metis of_nat_unat ucast_id)
  then show ?thesis
    by (simp add: seg_populated_def unat_NBSEG [OF ok] pmap_segmap_trunc_seg [OF ok])
qed

lemma div_add_le1:
  fixes x y :: nat
  shows "(x + y) div N \<le> x div N + y div N + 1"
proof (cases "N = 0")
  case True
  then show ?thesis by simp
next
  case False
  then have "x mod N < N" "y mod N < N"
    by simp_all
  then have "(x mod N + y mod N) < 2 * N"
    by linarith
  then have "(x mod N + y mod N) div N < 2"
    by (simp add: less_mult_imp_div_less)
  then have "x div N + y div N + (x mod N + y mod N) div N \<le> x div N + y div N + 1"
    by simp
  then show ?thesis
    by (simp only: div_add1_eq [symmetric])
qed

lemma span_count_bound:
  fixes a b :: nat
  assumes "0 < N" "a < b"
  shows "(b + N - 1) div N - a div N \<le> (b - a + N - 1) div N + 1"
proof -
  have "b + N - 1 = (b - a + N - 1) + a"
    using assms by simp
  then have "(b + N - 1) div N \<le> (b - a + N - 1) div N + a div N + 1"
    by (simp only: div_add_le1)
  then show ?thesis
    by simp
qed

lemma process_calls_segs:
  fixes cfg :: "'a::len config"
  assumes ok: "config_ok cfg" and lt: "sva < eva"
    and al: "\<forall>va. pmap_segmap cfg pmap s va AND PAGE_MASK cfg = 0"
  shows "map (\<lambda>c. unat (fst c) div unat (NBSEG cfg)) (process_calls cfg pmap s sva eva flags) =
         filter (seg_populated cfg pmap s)
           [unat sva div unat (NBSEG cfg) ..< (unat eva + unat (NBSEG cfg) - 1) div unat (NBSEG cfg)]"
proof -
  let ?seg = "\<lambda>va :: 'a word. unat va div unat (NBSEG cfg)"
  have P: "(pmap_pte_lookup cfg pmap s va \<noteq> 0) = (seg_populated cfg pmap s \<circ> ?seg) va" for va
    using al by (simp add: seg_populated_iff [OF ok] pmap_pte_lookup_nonzero_iff [OF ok])
  have "map (\<lambda>c. ?seg (fst c)) (process_calls cfg pmap s sva eva flags) =
        map ?seg (filter (seg_populated cfg pmap s \<circ> ?seg) (span_starts cfg sva eva))"
    by (simp add: process_calls_def o_def P [unfolded o_def])
  also have "\<dots> = filter (seg_populated cfg pmap s) (map ?seg (span_starts cfg sva eva))"
    by (simp only: filter_map)
  finally show ?thesis
    by (simp only: span_starts_segs [OF ok lt])
qed

lemma process_calls_sorted:
  assumes ok: "config_ok cfg"
  shows "sorted_wrt (<) (map fst (process_calls cfg pmap s sva eva flags))"
proof -
  have "map fst (process_calls cfg pmap s sva eva flags) =
        filter (\<lambda>va. pmap_pte_lookup cfg pmap s va \<noteq> 0) (span_starts cfg sva eva)"
    by (simp add: process_calls_def o_def)
  then show ?thesis
    using span_starts_sorted [OF ok, of sva eva] by (simp add: sorted_wrt_filter)
qed

lemma process_calls_length:
  fixes cfg :: "'a::len config"
  assumes ok: "config_ok cfg"
  shows "length (process_calls cfg pmap s sva eva flags)
           \<le> (unat eva - unat sva + unat (NBSEG cfg) - 1) div unat (NBSEG cfg) + 1"
proof (cases "sva < eva")
  case False
  then show ?thesis
    by (simp add: process_calls_def span_starts_def)
next
  case True
  let ?N = "unat (NBSEG cfg)"
  have N: "0 < ?N"
    by (simp add: unat_NBSEG [OF ok])
  have "length (process_calls cfg pmap s sva eva flags) \<le> length (span_starts cfg sva eva)"
    by (simp add: process_calls_def)
  also have "\<dots> = length (map (\<lambda>va. unat va div ?N) (span_starts cfg sva eva))"
    by simp
  also have "\<dots> = (unat eva + ?N - 1) div ?N - unat sva div ?N"
    by (simp only: span_starts_segs [OF ok True] length_upt)
  also have "\<dots> \<le> (unat eva - unat sva + ?N - 1) div ?N + 1"
    using N True by (intro span_count_bound) (simp_all add: word_less_nat_alt)
  finally show ?thesis .
qed

lemma length_filter_eq_distinct:
  "distinct xs \<Longrightarrow> length (filter (\<lambda>x. x = k) xs) = (if k \<in> set xs then 1 else 0)"
  by (induction xs) auto

lemma pte_index_aligned:
  fixes cfg :: "'a::len config"
  assumes ok: "config_ok cfg" and al: "va AND (NBSEG cfg - 1) = 0"
  shows "pte_index cfg va = 0"
proof -
  have "take_bit (SEGSHIFT cfg) va = 0"
    using al by (simp add: NBSEG_eq [OF ok] take_bit_eq_mask mask_eq_decr_exp)
  moreover have "SEGSHIFT cfg - PGSHIFT cfg + PGSHIFT cfg = SEGSHIFT cfg"
    using config_okD(1) [OF ok] by simp
  ultimately show ?thesis
    by (simp add: pte_index_eq [OF ok] take_bit_drop_bit)
qed

lemma seg_start_aligned:
  fixes cfg :: "'a::len config"
  assumes ok: "config_ok cfg"
  shows "(of_nat (k * unat (NBSEG cfg)) :: 'a word) AND (NBSEG cfg - 1) = 0"
proof -
  have "(of_nat (k * unat (NBSEG cfg)) :: 'a word) = push_bit (SEGSHIFT cfg) (of_nat k)"
    by (simp add: NBSEG_eq [OF ok] push_bit_eq_mult)
  moreover have "push_bit n w AND mask n = 0" for w :: "'a word" and n
    by (rule bit_word_eqI) (auto simp: bit_simps)
  ultimately show ?thesis
    by (simp add: NBSEG_eq [OF ok] mask_eq_decr_exp)
qed

lemma set_tl_filter_Cons: "set (tl (filter P (x # xs))) \<subseteq> set xs"
proof (cases "P x")
  case True
  then show ?thesis by auto
next
  case False
  have "set (tl (filter P xs)) \<subseteq> set (filter P xs)"
    by (cases "filter P xs") auto
  with False show ?thesis by auto
qed

lemma process_calls_tl_aligned:
  fixes cfg :: "'a::len config"
  assumes ok: "config_ok cfg" and c: "c \<in> set (tl (process_calls cfg pmap s sva eva flags))"
  shows "fst c AND (NBSEG cfg - 1) = 0"
proof (cases "sva < eva")
  case False
  with c show ?thesis
    by (simp add: process_calls_def span_starts_def)
next
  case True
  let ?rest = "map (\<lambda>k. of_nat (k * unat (NBSEG cfg)) :: 'a word)
                   [unat sva div unat (NBSEG cfg) + 1 ..<
                    (unat eva + unat (NBSEG cfg) - 1) div unat (NBSEG cfg)]"
  have "fst c \<in> set (tl (filter (\<lambda>va. pmap_pte_lookup cfg pmap s va \<noteq> 0) (sva # ?rest)))"
    using c True by (auto simp: process_calls_def span_starts_def map_tl [symmetric])
  then have "fst c \<in> set ?rest"
    by (rule subsetD [OF set_tl_filter_Cons])
  then show ?thesis
    using seg_start_aligned [OF ok] by auto
qed

lemmas walk_eval =
  pmap_pte_process.simps pmap_pte_lookup_def pmap_segmap_def spec_cfg_def root32_def
  leaf_state32_def two_leaf_state32_def boot_state_def pmap_trunc_seg_def NBSEG_def NBPG_def
  PAGE_MASK_def invoke_callback_def nop_callback_def seg_index_def pte_index_def

lemma two_leaf_state32_aligned:
  "pmap_segmap spec_cfg root32 two_leaf_state32 va AND PAGE_MASK spec_cfg = 0"
  by (simp add: walk_eval)

lemma process_two_leaf_unaligned:
  "map_option cb_log
     (pmap_pte_process spec_cfg root32 0x401000 0x800000 nop_callback 0 two_leaf_state32)
     = Some [(0x401000, 0x600000, 0x80020008, 0), (0x600000, 0x800000, 0x80021000, 0)]"
  by (simp add: walk_eval)

lemma process_two_leaf_aligned:
  "map_option cb_log
     (pmap_pte_process spec_cfg root32 0 0x800000 nop_callback 0 two_leaf_state32)
     = Some [(0x400000, 0x600000, 0x80020000, 0), (0x600000, 0x800000, 0x80021000, 0)]"
  by (simp add: walk_eval)

text \<open>For a page-aligned address the entry index is zero exactly at a leaf boundary.\<close>

lemma seg_aligned_page_aligned:
  fixes cfg :: "'a::len config"
  assumes ok: "config_ok cfg" and al: "va AND (NBSEG cfg - 1) = 0"
  shows "va AND PAGE_MASK cfg = 0"
proof -
  have "take_bit (SEGSHIFT cfg) va = 0"
    using al by (simp add: NBSEG_eq [OF ok] take_bit_eq_mask mask_eq_decr_exp)
  then have "take_bit (PGSHIFT cfg) (take_bit (SEGSHIFT cfg) va) = 0"
    by simp
  moreover have "min (PGSHIFT cfg) (SEGSHIFT cfg) = PGSHIFT cfg"
    using config_okD(1) [OF ok] by simp
  ultimately have "take_bit (PGSHIFT cfg) va = 0"
    by (simp only: take_bit_take_bit)
  then show ?thesis
    by (simp add: PAGE_MASK_eq take_bit_eq_mask)
qed

lemma pte_index_zero_iff:
  fixes cfg :: "'a::len config"
  assumes ok: "config_ok cfg" and pg: "va AND PAGE_MASK cfg = 0"
  shows "pte_index cfg va = 0 \<longleftrightarrow> va AND (NBSEG cfg - 1) = 0"
proof
  assume "va AND (NBSEG cfg - 1) = 0"
  with ok show "pte_index cfg va = 0"
    by (rule pte_index_aligned)
next
  assume z: "pte_index cfg va = 0"
  have lo: "take_bit (PGSHIFT cfg) va = 0"
    using pg by (simp add: PAGE_MASK_eq take_bit_eq_mask)
  have hi: "take_bit (SEGSHIFT cfg - PGSHIFT cfg) (drop_bit (PGSHIFT cfg) va) = 0"
    using z by (simp add: pte_index_eq [OF ok])
  have "take_bit (SEGSHIFT cfg) va = 0"
  proof (rule bit_word_eqI)
    fix n
    assume "n < LENGTH('a)"
    show "bit (take_bit (SEGSHIFT cfg) va) n = bit (0 :: 'a word) n"
    proof (cases "n < PGSHIFT cfg")
      case True
      have "bit (take_bit (PGSHIFT cfg) va) n = bit (0 :: 'a word) n"
        by (simp only: lo)
      with True show ?thesis
        by (simp add: bit_take_bit_iff)
    next
      case False
      have "bit (take_bit (SEGSHIFT cfg - PGSHIFT cfg) (drop_bit (PGSHIFT cfg) va)) (n - PGSHIFT cfg)
              = bit (0 :: 'a word) (n - PGSHIFT cfg)"
        by (simp only: hi)
      with False show ?thesis
        by (auto simp: bit_take_bit_iff bit_drop_bit_eq)
    qed
  qed
  then show "va AND (NBSEG cfg - 1) = 0"
    by (simp add: NBSEG_eq [OF ok] take_bit_eq_mask mask_eq_decr_exp)
qed

lemma pte_offset_zero_iff:
  fixes cfg :: "'a::len config"
  assumes ok: "config_ok cfg"
  shows "(of_nat (sizeof_pte cfg) * pte_index cfg va :: 'a word) = 0 \<longleftrightarrow> pte_index cfg va = 0"
proof -
  have "(of_nat (sizeof_pte cfg) * pte_index cfg va :: 'a word) = 0 \<longleftrightarrow>
        unat (of_nat (sizeof_pte cfg) * pte_index cfg va :: 'a word) = 0"
    by (simp only: unat_eq_0)
  also have "\<dots> \<longleftrightarrow> unat (pte_index cfg va) = 0"
    using config_okD(3) [OF ok] by (simp add: unat_pte_offset(1) [OF ok])
  also have "\<dots> \<longleftrightarrow> pte_index cfg va = 0"
    by (simp only: unat_eq_0)
  finally show ?thesis .
qed

lemma process_calls_start:
  fixes cfg :: "'a::len config"
  assumes ok: "config_ok cfg" and c: "c \<in> set (process_calls cfg pmap s sva eva flags)"
  shows "fst c = sva \<or> fst c AND (NBSEG cfg - 1) = 0"
proof -
  from c have "fst c \<in> set (span_starts cfg sva eva)"
    by (auto simp: process_calls_def)
  then show ?thesis
    using seg_start_aligned [OF ok] by (auto simp: span_starts_def split: if_splits)
qed


section \<open>The reserve engine: allocation failure\<close>

lemma reserve_page_null_iff:
  "fst (reserve_page cfg s) = 0 \<longleftrightarrow>
     fst (ptp_cache_get cfg s) = 0 \<and> fst (pmap_pte_pagealloc cfg (snd (ptp_cache_get cfg s))) = 0"
  by (simp add: reserve_page_def split: prod.splits)

lemma reserve_leaf_exhausted:
  "fst (reserve_page cfg s) = 0 \<Longrightarrow>
   reserve_leaf cfg stb va flags s =
     (if flags AND PMAP_CANFAIL cfg \<noteq> 0 then Inr (0, snd (reserve_page cfg s)) else Inl PanicNoPage)"
  by (cases "reserve_page cfg s") (simp add: reserve_leaf_def)

lemma pmap_check_ptes_Inr:
  "pmap_check_ptes cfg s pte = Inr u \<Longrightarrow> pte AND PAGE_MASK cfg = 0"
  by (simp add: pmap_check_ptes_def split: if_splits)

lemma reserve_leaf_nonnull:
  assumes ok: "config_ok cfg" and pg: "fst (reserve_page cfg s) \<noteq> 0"
    and r: "reserve_leaf cfg stb va flags s = Inr (X, s')"
  shows "X \<noteq> 0"
proof -
  obtain pg s2 where rp: "reserve_page cfg s = (pg, s2)"
    by (cases "reserve_page cfg s")
  with pg have pg0: "pg \<noteq> 0"
    by simp
  from r rp pg0 obtain pte' s4 u where
    p: "pte' \<noteq> 0" "pmap_check_ptes cfg s4 pte' = Inr u"
      "X = pte' + of_nat (sizeof_pte cfg) * pte_index cfg va"
    by (auto simp: reserve_leaf_def Let_def atomic_cas_ptr_def VM_PAGE_TO_PHYS_def
        PMAP_MAP_POOLPAGE_def split: prod.splits if_splits sum.splits)
  from p(2) have "pte' AND PAGE_MASK cfg = 0"
    by (rule pmap_check_ptes_Inr)
  with ok p(1) show ?thesis
    unfolding p(3) by (rule leaf_ptr_plus_nonzero)
qed

lemmas reserve_eval =
  pmap_pte_reserve_def reserve_segtab_def reserve_leaf_def reserve_page_def ptp_cache_get_def
  pmap_pte_pagealloc_def PMAP_ALLOC_POOLPAGE_def pmap_pte_lookup_def pmap_segmap_def
  seg_index_def xseg_index_def pte_index_def

section \<open>The directory-node pool\<close>

lemma stb_empty_iff: "stb_empty cfg s stb \<longleftrightarrow> (\<forall>i < PMAP_SEGTABSIZE cfg. seg_heap s stb i = 0)"
  by (auto simp: stb_empty_def list_all_iff)

lemma pmap_check_stb_empty: "stb_empty cfg s stb \<Longrightarrow> pmap_check_stb cfg s stb = Inr ()"
  by (auto simp: pmap_check_stb_def stb_empty_iff list_ex_iff)

lemma pmap_check_stb_Inr:
  "pmap_check_stb cfg s stb = Inr u \<Longrightarrow> DEBUG cfg \<Longrightarrow> stb_empty cfg s stb"
  by (auto simp: pmap_check_stb_def stb_empty_iff list_ex_iff split: if_splits)

lemma checked_stb_empty: "stb_empty cfg s stb \<Longrightarrow> checked_stb cfg stb s = Inr (stb, s)"
  by (simp add: checked_stb_def pmap_check_stb_empty)

lemma on_freelist_null [simp]: "\<not> on_freelist h 0 x"
proof
  assume "on_freelist h 0 x"
  then show False
    by (induction rule: on_freelist.induct) simp_all
qed

lemma on_freelist_put:
  assumes "on_freelist (h(stb := (h stb)(0 := head))) stb x"
  shows "x = stb \<or> on_freelist h head x"
  using assms
proof (induction rule: on_freelist.induct)
  case head
  then show ?case by simp
next
  case (link x)
  show ?case
  proof (cases "x = stb")
    case True
    with link.hyps(2) have "head \<noteq> 0"
      by simp
    then have "on_freelist h head head"
      by (rule on_freelist.head)
    with True show ?thesis
      by simp
  next
    case False
    with link.IH have "on_freelist h head x"
      by simp
    moreover from False link.hyps(2) have "h x 0 \<noteq> 0"
      by simp
    ultimately have "on_freelist h head (h x 0)"
      by (rule on_freelist.link)
    with False show ?thesis
      by simp
  qed
qed

lemma on_freelist_get:
  assumes "on_freelist (h(x0 := (h x0)(0 := 0))) (h x0 0) x" and "x0 \<noteq> 0"
  shows "on_freelist h x0 x"
  using assms(1)
proof (induction rule: on_freelist.induct)
  case head
  from assms(2) have "on_freelist h x0 x0"
    by (rule on_freelist.head)
  then show ?case
    using head by (rule on_freelist.link)
next
  case (link x)
  from link.hyps(2) have "x \<noteq> x0"
    by auto
  with link.hyps(2) have "h x 0 \<noteq> 0"
    by simp
  with link.IH have "on_freelist h x0 (h x 0)"
    by (rule on_freelist.link)
  with \<open>x \<noteq> x0\<close> show ?case
    by simp
qed

lemma pool_ok_put:
  assumes "pool_ok cfg s" and "\<forall>i. 0 < i \<and> i < PMAP_SEGTABSIZE cfg \<longrightarrow> seg_heap s stb i = 0"
  shows "pool_ok cfg (pmap_segtab_free stb s)"
  unfolding pool_ok_def
proof (intro allI impI)
  fix x i
  assume r: "on_freelist (seg_heap (pmap_segtab_free stb s)) (free_segtab (pmap_segtab_free stb s)) x"
    and i: "0 < i \<and> i < PMAP_SEGTABSIZE cfg"
  from r have "on_freelist ((seg_heap s)(stb := (seg_heap s stb)(0 := free_segtab s))) stb x"
    by (simp add: pmap_segtab_free_def)
  then have "x = stb \<or> on_freelist (seg_heap s) (free_segtab s) x"
    by (rule on_freelist_put)
  with assms i have "seg_heap s x i = 0"
    by (auto simp: pool_ok_def)
  with i show "seg_heap (pmap_segtab_free stb s) x i = 0"
    by (auto simp: pmap_segtab_free_def)
qed

lemma pmap_segtab_alloc_head:
  assumes nz: "free_segtab s \<noteq> 0"
  shows "pmap_segtab_alloc cfg s =
     Some (checked_stb cfg (free_segtab s)
       (s\<lparr>free_segtab := seg_heap s (free_segtab s) 0,
          seg_heap := (seg_heap s)(free_segtab s := (seg_heap s (free_segtab s))(0 := 0))\<rparr>))"
  by (subst pmap_segtab_alloc.simps) (simp only: nz if_True not_False_eq_True)

lemma pmap_segtab_alloc_freelist:
  assumes pool: "pool_ok cfg s" and nz: "free_segtab s \<noteq> 0"
  defines "s1 \<equiv> s\<lparr>free_segtab := seg_heap s (free_segtab s) 0,
             seg_heap := (seg_heap s)(free_segtab s := (seg_heap s (free_segtab s))(0 := 0))\<rparr>"
  shows "pmap_segtab_alloc cfg s = Some (Inr (free_segtab s, s1))"
    and "stb_empty cfg s1 (free_segtab s)"
    and "pool_ok cfg s1"
proof -
  from nz have "on_freelist (seg_heap s) (free_segtab s) (free_segtab s)"
    by (rule on_freelist.head)
  with pool have "\<forall>i. 0 < i \<and> i < PMAP_SEGTABSIZE cfg \<longrightarrow> seg_heap s (free_segtab s) i = 0"
    by (simp add: pool_ok_def)
  then show e: "stb_empty cfg s1 (free_segtab s)"
    by (auto simp: stb_empty_iff s1_def)
  have "pmap_segtab_alloc cfg s = Some (checked_stb cfg (free_segtab s) s1)"
    unfolding s1_def using nz by (rule pmap_segtab_alloc_head)
  then show "pmap_segtab_alloc cfg s = Some (Inr (free_segtab s, s1))"
    by (simp only: checked_stb_empty [OF e])
  show "pool_ok cfg s1"
    unfolding pool_ok_def
  proof (intro allI impI)
    fix x i
    assume r: "on_freelist (seg_heap s1) (free_segtab s1) x" and i: "0 < i \<and> i < PMAP_SEGTABSIZE cfg"
    from r have "on_freelist ((seg_heap s)(free_segtab s := (seg_heap s (free_segtab s))(0 := 0)))
        (seg_heap s (free_segtab s) 0) x"
      by (simp add: s1_def)
    then have "on_freelist (seg_heap s) (free_segtab s) x"
      using nz by (rule on_freelist_get)
    with pool i have "seg_heap s x i = 0"
      by (simp add: pool_ok_def)
    with i show "seg_heap s1 x i = 0"
      by (auto simp: s1_def)
  qed
qed

lemma unat_NBPG: "config_ok cfg \<Longrightarrow> unat (NBPG cfg) = 2 ^ PGSHIFT cfg"
  by (simp add: NBPG_eq config_ok_PGSHIFT_lt unat_2p)

lemma segtabs_per_page_pos: "config_ok cfg \<Longrightarrow> 0 < segtabs_per_page cfg"
  using config_okD(5,6) [of cfg]
  by (simp add: segtabs_per_page_def unat_NBPG div_greater_zero_iff)

lemma stb_at_0 [simp]: "stb_at cfg stb 0 = stb"
  by (simp add: stb_at_def)

lemma stb_at_inject:
  fixes cfg :: "'a::len config"
  assumes ok: "config_ok cfg" and i: "i < segtabs_per_page cfg" and j: "j < segtabs_per_page cfg"
    and eq: "stb_at cfg stb i = stb_at cfg stb j"
  shows "i = j"
proof -
  have bound: "k * sizeof_segtab cfg < 2 ^ LENGTH('a)" if "k < segtabs_per_page cfg" for k
  proof -
    from that have "k * sizeof_segtab cfg < segtabs_per_page cfg * sizeof_segtab cfg"
      using config_okD(5) [OF ok] by simp
    also have "\<dots> \<le> 2 ^ PGSHIFT cfg"
      by (simp add: segtabs_per_page_def unat_NBPG [OF ok])
    also have "\<dots> < 2 ^ LENGTH('a)"
      using config_ok_PGSHIFT_lt [OF ok] by simp
    finally show ?thesis .
  qed
  from eq have "(of_nat (i * sizeof_segtab cfg) :: 'a word) = of_nat (j * sizeof_segtab cfg)"
    by (simp add: stb_at_def)
  then have "unat (of_nat (i * sizeof_segtab cfg) :: 'a word) = unat (of_nat (j * sizeof_segtab cfg) :: 'a word)"
    by simp
  then have "i * sizeof_segtab cfg = j * sizeof_segtab cfg"
    using bound [OF i] bound [OF j] by (simp only: unat_of_nat mod_less)
  then show ?thesis
    using config_okD(5) [OF ok] by simp
qed

lemma link_step_slots: "0 < k \<Longrightarrow> link_step cfg stb i h x k = h x k"
  by (simp add: link_step_def)

lemma link_step_slot0:
  "link_step cfg stb i h x 0 = (if x = stb_at cfg stb i then stb_at cfg stb (i + 1) else h x 0)"
  by (simp add: link_step_def)

lemma link_step_other: "x \<noteq> stb_at cfg stb i \<Longrightarrow> link_step cfg stb i h x = h x"
  by (simp add: link_step_def)

lemma fold_link_other:
  "x \<notin> stb_at cfg stb ` set is \<Longrightarrow> fold (link_step cfg stb) is h x = h x"
  by (induction "is" arbitrary: h) (simp_all add: link_step_other)

lemma fold_link_slots:
  "0 < k \<Longrightarrow> fold (link_step cfg stb) is h x k = h x k"
  by (induction "is" arbitrary: h) (simp_all add: link_step_slots)

lemma fold_link_slot0:
  "fold (link_step cfg stb) is h x 0 = h x 0 \<or>
   fold (link_step cfg stb) is h x 0 \<in> (\<lambda>i. stb_at cfg stb (i + 1)) ` set is"
proof (induction "is" arbitrary: h)
  case Nil
  then show ?case by simp
next
  case (Cons i "is")
  from Cons [of "link_step cfg stb i h"]
  show ?case
  proof
    assume "fold (link_step cfg stb) is (link_step cfg stb i h) x 0 = link_step cfg stb i h x 0"
    then show ?thesis
      by (simp add: link_step_slot0 split: if_splits)
  next
    assume "fold (link_step cfg stb) is (link_step cfg stb i h) x 0
              \<in> (\<lambda>i. stb_at cfg stb (i + 1)) ` set is"
    then show ?thesis
      by simp
  qed
qed

lemma segtab_link_page_slots:
  "0 < k \<Longrightarrow> seg_heap (segtab_link_page cfg stb n s) x k = seg_heap s x k"
  by (simp add: segtab_link_page_def Let_def fold_link_slots)

lemma segtab_link_page_other:
  assumes n: "1 < n" and x: "x \<notin> stb_at cfg stb ` {1..<n}"
  shows "seg_heap (segtab_link_page cfg stb n s) x = seg_heap s x"
proof -
  from x have "x \<notin> stb_at cfg stb ` set [1..<n - 1]"
    by auto
  moreover have "x \<noteq> stb_at cfg stb (n - 1)"
    using x n by auto
  ultimately show ?thesis
    by (simp add: segtab_link_page_def Let_def fold_link_other)
qed

lemma segtab_link_page_slot0:
  assumes n: "1 < n"
  shows "seg_heap (segtab_link_page cfg stb n s) x 0 = seg_heap s x 0 \<or>
         seg_heap (segtab_link_page cfg stb n s) x 0 = free_segtab s \<or>
         seg_heap (segtab_link_page cfg stb n s) x 0 \<in> stb_at cfg stb ` {1..<n}"
proof (cases "x = stb_at cfg stb (n - 1)")
  case True
  then show ?thesis
    by (simp add: segtab_link_page_def Let_def)
next
  case False
  have "(\<lambda>i. stb_at cfg stb (i + 1)) ` set [1..<n - 1] \<subseteq> stb_at cfg stb ` {1..<n}"
    by auto
  with fold_link_slot0 [of cfg stb "[1..<n - 1]" "seg_heap s" x] False show ?thesis
    by (auto simp: segtab_link_page_def Let_def)
qed

lemma page_segtabs_set: "set (page_segtabs cfg pg) = stb_at cfg pg ` {0..<segtabs_per_page cfg}"
  by (simp add: page_segtabs_def)

lemma zero_page_seg_heap:
  "seg_heap (zero_page cfg pg s) x = (if x \<in> stb_at cfg pg ` {0..<segtabs_per_page cfg} then (\<lambda>_. 0) else seg_heap s x)"
  by (simp add: zero_page_def page_segtabs_set)

lemma zero_page_fields [simp]:
  "free_segtab (zero_page cfg pg s) = free_segtab s"
  "ptp_pgflist (zero_page cfg pg s) = ptp_pgflist s"
  "uvm_pages (zero_page cfg pg s) = uvm_pages s"
  "cb_log (zero_page cfg pg s) = cb_log s"
  by (simp_all add: zero_page_def)

lemma segtab_link_page_fields [simp]:
  "free_segtab (segtab_link_page cfg stb n s) = stb_at cfg stb 1"
  "ptp_pgflist (segtab_link_page cfg stb n s) = ptp_pgflist s"
  "uvm_pages (segtab_link_page cfg stb n s) = uvm_pages s"
  "cb_log (segtab_link_page cfg stb n s) = cb_log s"
  "pte_heap (segtab_link_page cfg stb n s) = pte_heap s"
  by (simp_all add: segtab_link_page_def Let_def)

lemma pmap_segtab_alloc_page:
  assumes "free_segtab s = 0" "uvm_pages s = pg # rest" "pg \<noteq> 0"
  shows "pmap_segtab_alloc cfg s = Some (checked_stb cfg pg (fresh_segtab_state cfg pg s))"
  using assms
  by (subst pmap_segtab_alloc.simps)
    (simp add: pmap_pte_pagealloc_def PMAP_ALLOC_POOLPAGE_def PMAP_MAP_POOLPAGE_def
      VM_PAGE_TO_PHYS_def fresh_segtab_state_def)

lemma fresh_segtab_state_heap:
  fixes cfg :: "'a::len config"
  assumes ok: "config_ok cfg"
  shows "seg_heap (fresh_segtab_state cfg pg s) pg = (\<lambda>_. 0)"
    and "x \<in> stb_at cfg pg ` {0..<segtabs_per_page cfg} \<Longrightarrow> 0 < k \<Longrightarrow>
         seg_heap (fresh_segtab_state cfg pg s) x k = 0"
    and "x \<notin> stb_at cfg pg ` {0..<segtabs_per_page cfg} \<Longrightarrow>
         seg_heap (fresh_segtab_state cfg pg s) x = seg_heap s x"
proof -
  let ?n = "segtabs_per_page cfg"
  let ?s1 = "zero_page cfg pg (s\<lparr>uvm_pages := tl (uvm_pages s)\<rparr>)"
  have n: "0 < ?n"
    using ok by (rule segtabs_per_page_pos)
  have pg: "pg \<in> stb_at cfg pg ` {0..<?n}"
    using n by (auto intro: image_eqI [where x = 0])
  have notin: "pg \<notin> stb_at cfg pg ` {1..<?n}"
  proof
    assume "pg \<in> stb_at cfg pg ` {1..<?n}"
    then obtain i where i: "1 \<le> i" "i < ?n" "stb_at cfg pg i = stb_at cfg pg 0"
      by auto
    from stb_at_inject [OF ok i(2) n i(3)] i(1) show False
      by simp
  qed
  show "seg_heap (fresh_segtab_state cfg pg s) pg = (\<lambda>_. 0)"
    using pg notin by (simp add: fresh_segtab_state_def segtab_link_page_other zero_page_seg_heap)
  show "seg_heap (fresh_segtab_state cfg pg s) x k = 0"
    if "x \<in> stb_at cfg pg ` {0..<?n}" "0 < k"
    using that by (simp add: fresh_segtab_state_def segtab_link_page_slots zero_page_seg_heap)
  show "seg_heap (fresh_segtab_state cfg pg s) x = seg_heap s x"
    if x: "x \<notin> stb_at cfg pg ` {0..<?n}"
  proof -
    from x have "x \<notin> stb_at cfg pg ` {1..<?n}"
      by auto
    with x show ?thesis
      by (simp add: fresh_segtab_state_def segtab_link_page_other zero_page_seg_heap)
  qed
qed

lemma fresh_segtab_state_freelist:
  fixes cfg :: "'a::len config"
  assumes fl: "free_segtab s = 0"
    and r: "on_freelist (seg_heap (fresh_segtab_state cfg pg s)) (free_segtab (fresh_segtab_state cfg pg s)) x"
  shows "1 < segtabs_per_page cfg \<and> x \<in> stb_at cfg pg ` {1..<segtabs_per_page cfg}"
proof (cases "1 < segtabs_per_page cfg")
  case False
  with r fl show ?thesis
    by (simp add: fresh_segtab_state_def)
next
  case True
  let ?n = "segtabs_per_page cfg"
  let ?s1 = "zero_page cfg pg (s\<lparr>uvm_pages := tl (uvm_pages s)\<rparr>)"
  let ?s' = "segtab_link_page cfg pg ?n ?s1"
  from r True have "on_freelist (seg_heap ?s') (stb_at cfg pg 1) x"
    by (simp add: fresh_segtab_state_def)
  then have "x \<in> stb_at cfg pg ` {1..<?n}"
  proof (induction rule: on_freelist.induct)
    case head
    from True show ?case
      by auto
  next
    case (link x)
    from link.IH have "x \<in> stb_at cfg pg ` {0..<?n}"
      by auto
    then have "seg_heap ?s1 x 0 = 0"
      by (simp add: zero_page_seg_heap)
    moreover have "free_segtab ?s1 = 0"
      using fl by simp
    ultimately show ?case
      using segtab_link_page_slot0 [OF True, of cfg pg ?s1 x] link.hyps(2) by auto
  qed
  with True show ?thesis
    by simp
qed

lemma pmap_segtab_alloc_fresh:
  fixes cfg :: "'a::len config"
  assumes ok: "config_ok cfg" and fl: "free_segtab s = 0"
    and pages: "uvm_pages s = pg # rest" and pg: "pg \<noteq> 0"
  shows "pmap_segtab_alloc cfg s = Some (Inr (pg, fresh_segtab_state cfg pg s))"
    and "stb_empty cfg (fresh_segtab_state cfg pg s) pg"
    and "pool_ok cfg (fresh_segtab_state cfg pg s)"
proof -
  show e: "stb_empty cfg (fresh_segtab_state cfg pg s) pg"
    by (simp add: stb_empty_iff fresh_segtab_state_heap(1) [OF ok])
  have "pmap_segtab_alloc cfg s = Some (checked_stb cfg pg (fresh_segtab_state cfg pg s))"
    using fl pages pg by (rule pmap_segtab_alloc_page)
  then show "pmap_segtab_alloc cfg s = Some (Inr (pg, fresh_segtab_state cfg pg s))"
    by (simp only: checked_stb_empty [OF e])
  show "pool_ok cfg (fresh_segtab_state cfg pg s)"
    unfolding pool_ok_def
  proof (intro allI impI)
    fix x i
    assume r: "on_freelist (seg_heap (fresh_segtab_state cfg pg s))
                 (free_segtab (fresh_segtab_state cfg pg s)) x"
      and i: "0 < i \<and> i < PMAP_SEGTABSIZE cfg"
    from fresh_segtab_state_freelist [OF fl r]
    have "x \<in> stb_at cfg pg ` {0..<segtabs_per_page cfg}"
      by auto
    with i show "seg_heap (fresh_segtab_state cfg pg s) x i = 0"
      by (simp add: fresh_segtab_state_heap(2) [OF ok])
  qed
qed

lemma checked_stb_Inr: "checked_stb cfg stb s = Inr (stb', s') \<Longrightarrow> stb' = stb \<and> s' = s"
  by (auto simp: checked_stb_def split: sum.splits)

lemma pool_ok_no_freelist: "free_segtab s = 0 \<Longrightarrow> pool_ok cfg s"
  by (simp add: pool_ok_def)

lemma pmap_segtab_alloc_returns:
  fixes cfg :: "'a::len config"
  assumes ret: "pmap_segtab_alloc cfg s = Some r" and ok: "config_ok cfg" and pool: "pool_ok cfg s"
    and r: "r = Inr (stb', s')"
  shows "stb_empty cfg s' stb' \<and> pool_ok cfg s'"
proof -
  have "config_ok cfg \<longrightarrow> pool_ok cfg s \<longrightarrow>
        (\<forall>stb' s'. r = Inr (stb', s') \<longrightarrow> stb_empty cfg s' stb' \<and> pool_ok cfg s')"
  proof (rule pmap_segtab_alloc.raw_induct
      [where P = "\<lambda>cfg s r. config_ok cfg \<longrightarrow> pool_ok cfg s \<longrightarrow>
        (\<forall>stb' s'. r = Inr (stb', s') \<longrightarrow> stb_empty cfg s' stb' \<and> pool_ok cfg s')", OF _ ret],
      goal_cases)
    case (1 alloc cfg s r)
    show ?case
    proof (intro impI allI)
      fix stb' s'
      assume ok: "config_ok cfg" and pool: "pool_ok cfg s" and r: "r = Inr (stb', s')"
      show "stb_empty cfg s' stb' \<and> pool_ok cfg s'"
      proof (cases "free_segtab s = 0")
        case False
        with 1(2) r have "stb' = free_segtab s \<and>
            s' = s\<lparr>free_segtab := seg_heap s (free_segtab s) 0,
                 seg_heap := (seg_heap s)(free_segtab s := (seg_heap s (free_segtab s))(0 := 0))\<rparr>"
          by (auto dest: checked_stb_Inr)
        with pmap_segtab_alloc_freelist(2,3) [OF pool, of] False show ?thesis
          by simp
      next
        case fl: True
        show ?thesis
        proof (cases "uvm_pages s")
          case Nil
          with fl 1(2) have "alloc cfg s = Some r"
            by (simp add: pmap_pte_pagealloc_def PMAP_ALLOC_POOLPAGE_def uvm_wait_def)
          from 1(1) [OF this] ok pool r show ?thesis
            by blast
        next
          case (Cons pg rest)
          show ?thesis
          proof (cases "pg = 0")
            case True
            let ?t = "zero_page cfg pg (s\<lparr>uvm_pages := rest\<rparr>)"
            from fl Cons True 1(2) have "alloc cfg ?t = Some r"
              by (simp add: pmap_pte_pagealloc_def PMAP_ALLOC_POOLPAGE_def uvm_wait_def)
            moreover have "pool_ok cfg ?t"
              using fl by (intro pool_ok_no_freelist) simp
            ultimately show ?thesis
              using 1(1) [of cfg ?t r] ok r by blast
          next
            case False
            from fl Cons False 1(2) r
            have "checked_stb cfg pg (fresh_segtab_state cfg pg s) = Inr (stb', s')"
              by (auto simp: pmap_pte_pagealloc_def PMAP_ALLOC_POOLPAGE_def PMAP_MAP_POOLPAGE_def
                  VM_PAGE_TO_PHYS_def fresh_segtab_state_def split: if_splits)
            then have "stb' = pg \<and> s' = fresh_segtab_state cfg pg s"
              by (rule checked_stb_Inr)
            with pmap_segtab_alloc_fresh(2,3) [OF ok fl Cons False] show ?thesis
              by simp
          qed
        qed
      qed
    qed
  qed
  with ok pool r show ?thesis
    by blast
qed
section \<open>The reserve engine preserves well-formedness\<close>

text \<open>Basic facts about stores.\<close>

lemma seg_store_heap:
  "seg_heap (seg_store b i v s) b' i' = (if b' = b \<and> i' = i then v else seg_heap s b' i')"
  by (simp add: seg_store_def)

lemma seg_store_heap_other: "b' \<noteq> b \<Longrightarrow> seg_heap (seg_store b i v s) b' = seg_heap s b'"
  by (simp add: seg_store_def)

lemma seg_store_fields [simp]:
  "free_segtab (seg_store b i v s) = free_segtab s"
  "ptp_pgflist (seg_store b i v s) = ptp_pgflist s"
  "uvm_pages (seg_store b i v s) = uvm_pages s"
  "cb_log (seg_store b i v s) = cb_log s"
  "pte_heap (seg_store b i v s) = pte_heap s"
  by (simp_all add: seg_store_def)

lemma free_page_segtabs_seg_store [simp]:
  "free_page_segtabs cfg (seg_store b i v s) = free_page_segtabs cfg s"
  by (simp add: free_page_segtabs_def)

text \<open>What the sets of the directory depend on.\<close>

lemma children_cong:
  "seg_heap s' (pm_segtab pmap) = seg_heap s (pm_segtab pmap) \<Longrightarrow>
   children cfg pmap s' = children cfg pmap s"
  by (simp add: children_def)

lemma bottoms_cong:
  "seg_heap s' (pm_segtab pmap) = seg_heap s (pm_segtab pmap) \<Longrightarrow>
   bottoms cfg pmap s' = bottoms cfg pmap s"
  by (simp add: bottoms_def children_cong [of s' pmap s])

lemma live_segtabs_cong:
  "seg_heap s' (pm_segtab pmap) = seg_heap s (pm_segtab pmap) \<Longrightarrow>
   live_segtabs cfg pmap s' = live_segtabs cfg pmap s"
  by (simp add: live_segtabs_def children_cong [of s' pmap s])

lemma root_live [simp]: "pm_segtab pmap \<in> live_segtabs cfg pmap s"
  by (simp add: live_segtabs_def)

lemma children_live: "c \<in> children cfg pmap s \<Longrightarrow> c \<in> live_segtabs cfg pmap s"
  by (simp add: live_segtabs_def)

lemma bottoms_live: "b \<in> bottoms cfg pmap s \<Longrightarrow> b \<in> live_segtabs cfg pmap s"
  by (auto simp: live_segtabs_def bottoms_def split: if_splits)

lemma leaf_slots_cong:
  assumes "\<forall>b \<in> live_segtabs cfg pmap s. seg_heap s' b = seg_heap s b"
  shows "leaf_slots cfg pmap s' = leaf_slots cfg pmap s"
proof -
  from assms have "seg_heap s' (pm_segtab pmap) = seg_heap s (pm_segtab pmap)"
    by simp
  then have b: "bottoms cfg pmap s' = bottoms cfg pmap s"
    by (rule bottoms_cong)
  show ?thesis
    using assms bottoms_live [of _ cfg pmap s] by (auto simp: leaf_slots_def b)
qed

lemma leaves_cong:
  assumes "\<forall>b \<in> live_segtabs cfg pmap s. seg_heap s' b = seg_heap s b"
  shows "leaves cfg pmap s' = leaves cfg pmap s"
proof -
  have "(\<lambda>(b, i). seg_heap s' b i) ` leaf_slots cfg pmap s = (\<lambda>(b, i). seg_heap s b i) ` leaf_slots cfg pmap s"
    using assms bottoms_live [of _ cfg pmap s] by (intro image_cong) (auto simp: leaf_slots_def)
  then show ?thesis
    by (simp add: leaves_def leaf_slots_cong [OF assms])
qed

lemma tree_ok_cong:
  assumes "\<forall>b \<in> live_segtabs cfg pmap s. seg_heap s' b = seg_heap s b"
  shows "tree_ok cfg pmap s' = tree_ok cfg pmap s"
proof -
  from assms have r: "seg_heap s' (pm_segtab pmap) = seg_heap s (pm_segtab pmap)"
    by simp
  have "inj_on (\<lambda>(b, i). seg_heap s' b i) (leaf_slots cfg pmap s) =
        inj_on (\<lambda>(b, i). seg_heap s b i) (leaf_slots cfg pmap s)"
    using assms bottoms_live [of _ cfg pmap s] by (intro inj_on_cong) (auto simp: leaf_slots_def)
  then show ?thesis
    by (simp add: tree_ok_def r children_cong [OF r] leaf_slots_cong [OF assms] leaves_cong [OF assms])
qed

lemma seg_chain_cong:
  "\<forall>x \<in> set fl. h' x 0 = h x 0 \<Longrightarrow> seg_chain h' p fl = seg_chain h p fl"
  by (induction fl arbitrary: p) auto

lemma seg_chain_head: "seg_chain h p fl \<Longrightarrow> p \<noteq> 0 \<Longrightarrow> \<exists>rest. fl = p # rest"
  by (cases fl) auto

lemma seg_chain_null: "seg_chain h 0 fl \<Longrightarrow> fl = []"
  by (cases fl) auto

lemma config_ok_LP64:
  fixes cfg :: "'a::len config"
  assumes "config_ok cfg" "LP64 cfg"
  shows "SEGSHIFT cfg < XSEGSHIFT cfg"
    and "PMAP_SEGTABSIZE cfg = 2 ^ (XSEGSHIFT cfg - SEGSHIFT cfg)"
    and "NSEGPG cfg = PMAP_SEGTABSIZE cfg"
    and "XSEGSHIFT cfg + (XSEGSHIFT cfg - SEGSHIFT cfg) \<le> LENGTH('a)"
  using assms unfolding config_ok_def by (simp_all only: if_True)

lemma config_ok_segtabsize:
  fixes cfg :: "'a::len config"
  assumes ok: "config_ok cfg"
  shows "\<exists>k. 0 < k \<and> k < LENGTH('a) \<and> PMAP_SEGTABSIZE cfg = 2 ^ k"
proof (cases "LP64 cfg")
  case True
  from config_ok_LP64(1,2,4) [OF ok True] show ?thesis
    by (intro exI [of _ "XSEGSHIFT cfg - SEGSHIFT cfg"]) auto
next
  case False
  with ok have "PMAP_SEGTABSIZE cfg \<in> set (map (\<lambda>k. 2 ^ k) [1..<Suc (LENGTH('a) - SEGSHIFT cfg)])"
    by (simp add: config_ok_def)
  then obtain k where k: "1 \<le> k" "k \<le> LENGTH('a) - SEGSHIFT cfg" "PMAP_SEGTABSIZE cfg = 2 ^ k"
    by auto
  moreover have "0 < SEGSHIFT cfg"
    using config_okD(1) [OF ok] by simp
  ultimately show ?thesis
    using config_ok_SEGSHIFT_lt [OF ok] by (intro exI [of _ k]) auto
qed

lemma unat_and_pow2_less:
  fixes x :: "'a::len word"
  assumes "k < LENGTH('a)"
  shows "unat (x AND (of_nat (2 ^ k) - 1)) < 2 ^ k"
proof -
  have "x AND (of_nat (2 ^ k) - 1) = take_bit k x"
    by (simp add: take_bit_eq_mask mask_eq_decr_exp)
  then have "unat (x AND (of_nat (2 ^ k) - 1)) = take_bit k (unat x)"
    by (simp add: unsigned_take_bit_eq)
  then show ?thesis
    by (simp add: take_bit_nat_def)
qed

lemma seg_index_less:
  fixes cfg :: "'a::len config"
  assumes ok: "config_ok cfg"
  shows "seg_index cfg va < PMAP_SEGTABSIZE cfg"
proof -
  from config_ok_segtabsize [OF ok] obtain k where k: "k < LENGTH('a)" "PMAP_SEGTABSIZE cfg = 2 ^ k"
    by blast
  from unat_and_pow2_less [OF k(1), of "drop_bit (SEGSHIFT cfg) va"] show ?thesis
    by (simp only: seg_index_def k(2))
qed

lemma xseg_index_less:
  fixes cfg :: "'a::len config"
  assumes ok: "config_ok cfg" and lp: "LP64 cfg"
  shows "xseg_index cfg va < NSEGPG cfg"
proof -
  from config_ok_segtabsize [OF ok] obtain k where k: "k < LENGTH('a)" "PMAP_SEGTABSIZE cfg = 2 ^ k"
    by blast
  have n: "NSEGPG cfg = 2 ^ k"
    using config_ok_LP64(3) [OF ok lp] k(2) by simp
  from unat_and_pow2_less [OF k(1), of "drop_bit (XSEGSHIFT cfg) va"] show ?thesis
    by (simp only: xseg_index_def n)
qed

text \<open>Frame rules for the separation of the pools and of the pages.\<close>

lemma pool_sep_frame:
  assumes "pool_sep cfg pmap s fl"
    and "\<forall>x \<in> set fl. seg_heap s' x = seg_heap s x"
    and "free_segtab s' = free_segtab s" and "uvm_pages s' = uvm_pages s"
    and "live_segtabs cfg pmap s' = live_segtabs cfg pmap s"
  shows "pool_sep cfg pmap s' fl"
proof -
  have "seg_chain (seg_heap s') (free_segtab s) fl = seg_chain (seg_heap s) (free_segtab s) fl"
    using assms(2) by (intro seg_chain_cong) simp
  with assms show ?thesis
    by (simp add: pool_sep_def free_page_segtabs_def)
qed

lemma pages_sep_frame:
  assumes "pages_sep cfg pmap s"
    and "ptp_pgflist s' = ptp_pgflist s" and "uvm_pages s' = uvm_pages s"
    and "leaves cfg pmap s' = leaves cfg pmap s"
  shows "pages_sep cfg pmap s'"
  using assms by (simp add: pages_sep_def)

text \<open>Under well-formedness a lookup finds nothing exactly when the slot is null.\<close>

lemma pmap_segmap_leaf:
  assumes ok: "config_ok cfg" and nz: "pmap_segmap cfg pmap s va \<noteq> 0"
  shows "pmap_segmap cfg pmap s va \<in> leaves cfg pmap s"
proof (cases "LP64 cfg")
  case True
  let ?c = "seg_heap s (pm_segtab pmap) (xseg_index cfg va)"
  from nz True have c: "?c \<noteq> 0" and v: "pmap_segmap cfg pmap s va = seg_heap s ?c (seg_index cfg va)"
    by (auto simp: pmap_segmap_def Let_def split: if_splits)
  have "?c \<in> bottoms cfg pmap s"
    using True c xseg_index_less [OF ok True, of va] by (auto simp: bottoms_def children_def)
  then have "(?c, seg_index cfg va) \<in> leaf_slots cfg pmap s"
    using nz v seg_index_less [OF ok, of va] by (simp add: leaf_slots_def)
  then show ?thesis
    unfolding leaves_def v by (rule image_eqI [rotated]) simp
next
  case False
  then have v: "pmap_segmap cfg pmap s va = seg_heap s (pm_segtab pmap) (seg_index cfg va)"
    by (simp add: pmap_segmap_def)
  have "(pm_segtab pmap, seg_index cfg va) \<in> leaf_slots cfg pmap s"
    using nz v False seg_index_less [OF ok, of va] by (simp add: leaf_slots_def bottoms_def)
  then show ?thesis
    unfolding leaves_def v by (rule image_eqI [rotated]) simp
qed

lemma pmap_pte_lookup_null_iff:
  assumes ok: "config_ok cfg" and tree: "tree_ok cfg pmap s"
  shows "pmap_pte_lookup cfg pmap s va = 0 \<longleftrightarrow> pmap_segmap cfg pmap s va = 0"
proof (cases "pmap_segmap cfg pmap s va = 0")
  case True
  then show ?thesis
    by (simp add: pmap_pte_lookup_def)
next
  case False
  with ok have "pmap_segmap cfg pmap s va \<in> leaves cfg pmap s"
    by (rule pmap_segmap_leaf)
  with tree have "pmap_segmap cfg pmap s va AND PAGE_MASK cfg = 0"
    by (simp add: tree_ok_def)
  with ok have "pmap_pte_lookup cfg pmap s va \<noteq> 0 \<longleftrightarrow> pmap_segmap cfg pmap s va \<noteq> 0"
    by (rule pmap_pte_lookup_nonzero_iff)
  then show ?thesis
    by simp
qed

lemma freelist_pop_state_fields [simp]:
  "free_segtab (freelist_pop_state s) = seg_heap s (free_segtab s) 0"
  "ptp_pgflist (freelist_pop_state s) = ptp_pgflist s"
  "uvm_pages (freelist_pop_state s) = uvm_pages s"
  "cb_log (freelist_pop_state s) = cb_log s"
  "pte_heap (freelist_pop_state s) = pte_heap s"
  by (simp_all add: freelist_pop_state_def)

lemma freelist_pop_state_heap:
  "seg_heap (freelist_pop_state s) x i =
     (if x = free_segtab s \<and> i = 0 then 0 else seg_heap s x i)"
  by (simp add: freelist_pop_state_def)

lemma freelist_pop_state_other:
  "x \<noteq> free_segtab s \<Longrightarrow> seg_heap (freelist_pop_state s) x = seg_heap s x"
  by (simp add: freelist_pop_state_def)

lemma kernel_okD:
  assumes "kernel_ok cfg pmap s"
  shows "tree_ok cfg pmap s" and "\<exists>fl. pool_sep cfg pmap s fl" and "pages_sep cfg pmap s"
  using assms by (simp_all add: kernel_ok_def)

text \<open>Taking a segtab from the free list.\<close>

lemma alloc_pop_ok:
  fixes cfg :: "'a::len config"
  assumes k: "kernel_ok cfg pmap s" and nz: "free_segtab s \<noteq> 0"
  shows "\<forall>b \<in> live_segtabs cfg pmap s. seg_heap (freelist_pop_state s) b = seg_heap s b"
    and "free_segtab s \<notin> live_segtabs cfg pmap s"
    and "stb_empty cfg (freelist_pop_state s) (free_segtab s)"
    and "\<exists>fl1. pool_sep cfg pmap (freelist_pop_state s) fl1 \<and>
            free_segtab s \<notin> set (fl1 @ free_page_segtabs cfg (freelist_pop_state s))"
proof -
  let ?x = "free_segtab s"
  let ?s1 = "freelist_pop_state s"
  from kernel_okD(2) [OF k] obtain fl where fl: "pool_sep cfg pmap s fl"
    by blast
  then have chain: "seg_chain (seg_heap s) ?x fl"
    by (simp add: pool_sep_def)
  with nz obtain rest where rest: "fl = ?x # rest"
    by (auto dest: seg_chain_head)
  from fl rest have d: "distinct (?x # rest @ free_page_segtabs cfg s)"
    and disj: "set (?x # rest @ free_page_segtabs cfg s) \<inter> live_segtabs cfg pmap s = {}"
    and null: "\<forall>y \<in> set (?x # rest). \<forall>i. 0 < i \<and> i < PMAP_SEGTABSIZE cfg \<longrightarrow> seg_heap s y i = 0"
    by (simp_all add: pool_sep_def)
  from disj show notlive: "?x \<notin> live_segtabs cfg pmap s"
    by auto
  then show frame: "\<forall>b \<in> live_segtabs cfg pmap s. seg_heap ?s1 b = seg_heap s b"
    by (auto intro!: freelist_pop_state_other)
  from null show "stb_empty cfg ?s1 ?x"
    by (auto simp: stb_empty_iff freelist_pop_state_heap)
  have live: "live_segtabs cfg pmap ?s1 = live_segtabs cfg pmap s"
    using frame by (intro live_segtabs_cong) simp
  have other: "\<forall>y \<in> set rest. seg_heap ?s1 y = seg_heap s y"
    using d by (auto intro!: freelist_pop_state_other)
  have "seg_chain (seg_heap s) (seg_heap s ?x 0) rest"
    using chain rest by simp
  then have "seg_chain (seg_heap ?s1) (free_segtab ?s1) rest"
    using other by (simp add: seg_chain_cong [of rest "seg_heap ?s1" "seg_heap s"])
  then have "pool_sep cfg pmap ?s1 rest"
    using d disj null other by (auto simp: pool_sep_def live free_page_segtabs_def)
  moreover have "?x \<notin> set (rest @ free_page_segtabs cfg ?s1)"
    using d by (simp add: free_page_segtabs_def)
  ultimately show "\<exists>fl1. pool_sep cfg pmap ?s1 fl1 \<and> ?x \<notin> set (fl1 @ free_page_segtabs cfg ?s1)"
    by blast
qed

lemma stb_at_nonzero:
  fixes cfg :: "'a::len config"
  assumes ok: "config_ok cfg" and pg: "pg \<noteq> 0" "pg AND PAGE_MASK cfg = 0"
    and i: "i < segtabs_per_page cfg"
  shows "stb_at cfg pg i \<noteq> 0"
proof -
  have "i * sizeof_segtab cfg < segtabs_per_page cfg * sizeof_segtab cfg"
    using i config_okD(5) [OF ok] by simp
  also have "\<dots> \<le> 2 ^ PGSHIFT cfg"
    by (simp add: segtabs_per_page_def unat_NBPG [OF ok])
  finally have lt: "i * sizeof_segtab cfg < 2 ^ PGSHIFT cfg" .
  have "(2::nat) ^ PGSHIFT cfg < 2 ^ LENGTH('a)"
    using config_ok_PGSHIFT_lt [OF ok] by simp
  with lt have "i * sizeof_segtab cfg < 2 ^ LENGTH('a)"
    by (rule less_trans)
  then have u: "unat (of_nat (i * sizeof_segtab cfg) :: 'a word) = i * sizeof_segtab cfg"
    by (simp only: unat_of_nat mod_less)
  have "unat (pg + of_nat (i * sizeof_segtab cfg)) = unat pg + unat (of_nat (i * sizeof_segtab cfg) :: 'a word)"
    using pg(2) lt config_ok_PGSHIFT_lt [OF ok]
    by (intro unat_aligned_plus [where n = "PGSHIFT cfg"]) (simp_all only: PAGE_MASK_eq u)
  moreover have "unat pg \<noteq> 0"
    using pg(1) by (simp add: unat_eq_0)
  ultimately have "unat (stb_at cfg pg i) \<noteq> 0"
    by (simp add: stb_at_def)
  then show ?thesis
    by (simp add: unat_eq_0)
qed

lemma fold_link_value:
  assumes "distinct is" "inj_on (stb_at cfg stb) (set is)" "i \<in> set is"
  shows "fold (link_step cfg stb) is h (stb_at cfg stb i) 0 = stb_at cfg stb (i + 1)"
  using assms
proof (induction "is" arbitrary: h)
  case Nil
  then show ?case by simp
next
  case (Cons a "is")
  show ?case
  proof (cases "a = i")
    case True
    with Cons.prems have "stb_at cfg stb i \<notin> stb_at cfg stb ` set is"
      by (auto simp: inj_on_def)
    then show ?thesis
      using True by (simp add: fold_link_other link_step_slot0)
  next
    case False
    with Cons.prems have "distinct is" "inj_on (stb_at cfg stb) (set is)" "i \<in> set is"
      by (auto simp: inj_on_def)
    then show ?thesis
      by (simp add: Cons.IH)
  qed
qed

lemma stb_at_inj_on:
  "config_ok cfg \<Longrightarrow> inj_on (stb_at cfg stb) {0..<segtabs_per_page cfg}"
  by (auto simp: inj_on_def intro: stb_at_inject)

lemma segtab_link_page_value:
  fixes cfg :: "'a::len config"
  assumes ok: "config_ok cfg" and n: "n = segtabs_per_page cfg" "1 < n" and i: "1 \<le> i" "i < n"
  shows "seg_heap (segtab_link_page cfg stb n s) (stb_at cfg stb i) 0 =
           (if i = n - 1 then free_segtab s else stb_at cfg stb (i + 1))"
proof (cases "i = n - 1")
  case True
  then show ?thesis
    by (simp add: segtab_link_page_def Let_def)
next
  case False
  with i have i': "i \<in> set [1..<n - 1]"
    by simp
  have inj: "inj_on (stb_at cfg stb) (set [1..<n - 1])"
    using stb_at_inj_on [OF ok, of stb] by (rule inj_on_subset) (auto simp: n(1))
  have ne: "stb_at cfg stb i \<noteq> stb_at cfg stb (n - 1)"
    using stb_at_inject [OF ok, of i "n - 1" stb] i n False by auto
  from fold_link_value [OF _ inj i', of "seg_heap s"] ne False show ?thesis
    by (simp add: segtab_link_page_def Let_def)
qed

lemma fresh_segtab_state_chain_aux:
  fixes cfg :: "'a::len config"
  assumes ok: "config_ok cfg" and n: "n = segtabs_per_page cfg" "1 < n"
    and pg: "pg \<noteq> 0" "pg AND PAGE_MASK cfg = 0"
    and k: "1 \<le> k" "k \<le> n"
  shows "seg_chain (seg_heap (segtab_link_page cfg pg n s))
           (if k < n then stb_at cfg pg k else free_segtab s)
           (map (stb_at cfg pg) [k..<n] @ fl) =
         seg_chain (seg_heap (segtab_link_page cfg pg n s)) (free_segtab s) fl"
  using k
proof (induction "n - k" arbitrary: k)
  case 0
  then show ?case by simp
next
  case (Suc m)
  then have kn: "k < n"
    by simp
  have nz: "stb_at cfg pg k \<noteq> 0"
    using ok pg kn by (intro stb_at_nonzero) (simp_all add: n(1) [symmetric])
  have v: "seg_heap (segtab_link_page cfg pg n s) (stb_at cfg pg k) 0 =
           (if k + 1 < n then stb_at cfg pg (k + 1) else free_segtab s)"
    using segtab_link_page_value [OF ok n Suc.prems(1) kn, of pg s] kn by auto
  have "m = n - (k + 1)" "1 \<le> k + 1" "k + 1 \<le> n"
    using Suc.hyps(2) kn by simp_all
  from Suc.hyps(1) [OF this] show ?case
    using kn nz v by (simp add: upt_conv_Cons)
qed

lemma fresh_segtab_state_fields [simp]:
  "ptp_pgflist (fresh_segtab_state cfg pg s) = ptp_pgflist s"
  "uvm_pages (fresh_segtab_state cfg pg s) = tl (uvm_pages s)"
  "cb_log (fresh_segtab_state cfg pg s) = cb_log s"
  by (simp_all add: fresh_segtab_state_def)

text \<open>Taking a segtab from a fresh page.\<close>

lemma alloc_fresh_ok:
  fixes cfg :: "'a::len config"
  assumes ok: "config_ok cfg" and k: "kernel_ok cfg pmap s"
    and fl0: "free_segtab s = 0" and pages: "uvm_pages s = pg # rest"
  shows "\<forall>b \<in> live_segtabs cfg pmap s. seg_heap (fresh_segtab_state cfg pg s) b = seg_heap s b"
    and "pg \<notin> live_segtabs cfg pmap s" and "pg \<noteq> 0"
    and "\<exists>fl1. pool_sep cfg pmap (fresh_segtab_state cfg pg s) fl1 \<and>
            pg \<notin> set (fl1 @ free_page_segtabs cfg (fresh_segtab_state cfg pg s))"
proof -
  let ?s1 = "fresh_segtab_state cfg pg s"
  let ?n = "segtabs_per_page cfg"
  let ?segs = "stb_at cfg pg ` {0..<?n}"
  from kernel_okD(2) [OF k] obtain fl where fl: "pool_sep cfg pmap s fl"
    by blast
  with fl0 have "fl = []"
    by (auto simp: pool_sep_def dest: seg_chain_null)
  with fl pages have d: "distinct (page_segtabs cfg pg @ concat (map (page_segtabs cfg) rest))"
    and disj: "set (page_segtabs cfg pg @ concat (map (page_segtabs cfg) rest)) \<inter> live_segtabs cfg pmap s = {}"
    by (simp_all add: pool_sep_def free_page_segtabs_def)
  from kernel_okD(3) [OF k] pages show pg: "pg \<noteq> 0"
    by (simp add: pages_sep_def)
  from kernel_okD(3) [OF k] pages have al: "pg AND PAGE_MASK cfg = 0"
    by (simp add: pages_sep_def)
  have n: "0 < ?n"
    using ok by (rule segtabs_per_page_pos)
  have pgin: "pg \<in> set (page_segtabs cfg pg)"
    using n by (auto simp: page_segtabs_set intro: image_eqI [where x = 0])
  with disj show notlive: "pg \<notin> live_segtabs cfg pmap s"
    by auto
  show frame: "\<forall>b \<in> live_segtabs cfg pmap s. seg_heap ?s1 b = seg_heap s b"
  proof
    fix b assume "b \<in> live_segtabs cfg pmap s"
    with disj have "b \<notin> ?segs"
      by (auto simp: page_segtabs_set)
    then show "seg_heap ?s1 b = seg_heap s b"
      by (rule fresh_segtab_state_heap(3) [OF ok])
  qed
  have live: "live_segtabs cfg pmap ?s1 = live_segtabs cfg pmap s"
    using frame by (intro live_segtabs_cong) simp
  let ?fl1 = "map (stb_at cfg pg) [1..<?n]"
  have split: "page_segtabs cfg pg = pg # ?fl1"
    using n by (simp add: page_segtabs_def upt_conv_Cons)
  have fps: "free_page_segtabs cfg ?s1 = concat (map (page_segtabs cfg) rest)"
    using pages by (simp add: free_page_segtabs_def)
  have chain: "seg_chain (seg_heap ?s1) (free_segtab ?s1) ?fl1"
  proof (cases "1 < ?n")
    case False
    with fl0 show ?thesis
      by (simp add: fresh_segtab_state_def)
  next
    case True
    let ?z = "zero_page cfg pg (s\<lparr>uvm_pages := tl (uvm_pages s)\<rparr>)"
    from fresh_segtab_state_chain_aux [OF ok refl True pg al, of 1 ?z "[]"] True fl0
    show ?thesis
      by (simp add: fresh_segtab_state_def)
  qed
  have null: "\<forall>x \<in> set ?fl1. \<forall>i. 0 < i \<and> i < PMAP_SEGTABSIZE cfg \<longrightarrow> seg_heap ?s1 x i = 0"
  proof (intro ballI allI impI)
    fix x i assume "x \<in> set ?fl1" and i: "0 < i \<and> i < PMAP_SEGTABSIZE cfg"
    then have "x \<in> ?segs"
      by auto
    with i show "seg_heap ?s1 x i = 0"
      by (simp add: fresh_segtab_state_heap(2) [OF ok])
  qed
  have "pool_sep cfg pmap ?s1 ?fl1"
    unfolding pool_sep_def fps live using chain null d disj by (auto simp: split)
  moreover have "pg \<notin> set (?fl1 @ free_page_segtabs cfg ?s1)"
    unfolding fps using d by (simp add: split)
  ultimately show "\<exists>fl1. pool_sep cfg pmap ?s1 fl1 \<and> pg \<notin> set (fl1 @ free_page_segtabs cfg ?s1)"
    by blast
qed

text \<open>What \<^verbatim>\<open>pmap_segtab_alloc\<close> returns when no free page is null.\<close>

lemma pmap_segtab_alloc_cases:
  assumes ret: "pmap_segtab_alloc cfg s = Some r" and pages: "0 \<notin> set (uvm_pages s)"
  shows "(free_segtab s \<noteq> 0 \<and> r = checked_stb cfg (free_segtab s) (freelist_pop_state s)) \<or>
         (free_segtab s = 0 \<and>
          (\<exists>pg rest. uvm_pages s = pg # rest \<and> r = checked_stb cfg pg (fresh_segtab_state cfg pg s)))"
proof -
  have "0 \<notin> set (uvm_pages s) \<longrightarrow>
        (free_segtab s \<noteq> 0 \<and> r = checked_stb cfg (free_segtab s) (freelist_pop_state s)) \<or>
         (free_segtab s = 0 \<and>
          (\<exists>pg rest. uvm_pages s = pg # rest \<and> r = checked_stb cfg pg (fresh_segtab_state cfg pg s)))"
  proof (rule pmap_segtab_alloc.raw_induct
      [where P = "\<lambda>cfg s r. 0 \<notin> set (uvm_pages s) \<longrightarrow>
        (free_segtab s \<noteq> 0 \<and> r = checked_stb cfg (free_segtab s) (freelist_pop_state s)) \<or>
         (free_segtab s = 0 \<and>
          (\<exists>pg rest. uvm_pages s = pg # rest \<and> r = checked_stb cfg pg (fresh_segtab_state cfg pg s)))",
        OF _ ret], goal_cases)
    case (1 alloc cfg s r)
    show ?case
    proof (cases "free_segtab s = 0")
      case False
      with 1(2) show ?thesis
        by (simp add: freelist_pop_state_def)
    next
      case fl: True
      show ?thesis
      proof (cases "uvm_pages s")
        case Nil
        with fl 1(2) have "alloc cfg s = Some r"
          by (simp add: pmap_pte_pagealloc_def PMAP_ALLOC_POOLPAGE_def uvm_wait_def)
        from 1(1) [OF this] Nil fl show ?thesis
          by simp
      next
        case (Cons pg rest)
        show ?thesis
        proof (intro impI)
          assume "0 \<notin> set (uvm_pages s)"
          with Cons have "pg \<noteq> 0"
            by auto
          with fl Cons 1(2) have "r = checked_stb cfg pg (fresh_segtab_state cfg pg s)"
            by (auto simp: pmap_pte_pagealloc_def PMAP_ALLOC_POOLPAGE_def PMAP_MAP_POOLPAGE_def
                VM_PAGE_TO_PHYS_def fresh_segtab_state_def split: if_splits)
          with fl Cons show "(free_segtab s \<noteq> 0 \<and> r = checked_stb cfg (free_segtab s) (freelist_pop_state s)) \<or>
             (free_segtab s = 0 \<and>
              (\<exists>pg rest. uvm_pages s = pg # rest \<and> r = checked_stb cfg pg (fresh_segtab_state cfg pg s)))"
            by simp
        qed
      qed
    qed
  qed
  with pages show ?thesis
    by blast
qed

lemma pages_sep_tl:
  assumes "pages_sep cfg pmap s"
    and "ptp_pgflist s' = ptp_pgflist s"
    and "uvm_pages s' = uvm_pages s \<or> uvm_pages s' = tl (uvm_pages s)"
    and "leaves cfg pmap s' = leaves cfg pmap s"
  shows "pages_sep cfg pmap s'"
proof -
  have "set (tl (uvm_pages s)) \<subseteq> set (uvm_pages s)"
    by (cases "uvm_pages s") auto
  then have sub: "set (uvm_pages s') \<subseteq> set (uvm_pages s)"
    using assms(3) by auto
  have "distinct (uvm_pages s')"
    using assms(1,3) by (auto simp: pages_sep_def distinct_tl)
  with assms(1,2,4) sub show ?thesis
    by (auto simp: pages_sep_def)
qed

text \<open>The state after an allocation of a segtab.\<close>

lemma alloc_ok:
  fixes cfg :: "'a::len config"
  assumes ok: "config_ok cfg" and k: "kernel_ok cfg pmap s"
    and ret: "pmap_segtab_alloc cfg s = Some (Inr (nstb, s1))"
  shows "\<forall>b \<in> live_segtabs cfg pmap s. seg_heap s1 b = seg_heap s b"
    and "nstb \<notin> live_segtabs cfg pmap s" and "nstb \<noteq> 0" and "stb_empty cfg s1 nstb"
    and "\<exists>fl1. pool_sep cfg pmap s1 fl1 \<and> nstb \<notin> set (fl1 @ free_page_segtabs cfg s1)"
    and "tree_ok cfg pmap s1" and "pages_sep cfg pmap s1"
proof -
  have pg0: "0 \<notin> set (uvm_pages s)"
    using kernel_okD(3) [OF k] by (auto simp: pages_sep_def)
  have all: "(\<forall>b \<in> live_segtabs cfg pmap s. seg_heap s1 b = seg_heap s b) \<and>
    nstb \<notin> live_segtabs cfg pmap s \<and> nstb \<noteq> 0 \<and> stb_empty cfg s1 nstb \<and>
    (\<exists>fl1. pool_sep cfg pmap s1 fl1 \<and> nstb \<notin> set (fl1 @ free_page_segtabs cfg s1)) \<and>
    ptp_pgflist s1 = ptp_pgflist s \<and> (uvm_pages s1 = uvm_pages s \<or> uvm_pages s1 = tl (uvm_pages s))"
    using pmap_segtab_alloc_cases [OF ret pg0]
  proof
    assume a: "free_segtab s \<noteq> 0 \<and> Inr (nstb, s1) = checked_stb cfg (free_segtab s) (freelist_pop_state s)"
    then have e: "nstb = free_segtab s \<and> s1 = freelist_pop_state s"
      by (intro checked_stb_Inr) simp
    with a alloc_pop_ok [OF k, of] show ?thesis
      by simp
  next
    assume a: "free_segtab s = 0 \<and>
          (\<exists>pg rest. uvm_pages s = pg # rest \<and> Inr (nstb, s1) = checked_stb cfg pg (fresh_segtab_state cfg pg s))"
    then obtain pg rest where p: "uvm_pages s = pg # rest"
      "checked_stb cfg pg (fresh_segtab_state cfg pg s) = Inr (nstb, s1)"
      by auto
    from p(2) have e: "nstb = pg \<and> s1 = fresh_segtab_state cfg pg s"
      by (rule checked_stb_Inr)
    from a have fl0: "free_segtab s = 0"
      by simp
    from alloc_fresh_ok [OF ok k fl0 p(1)] pmap_segtab_alloc_fresh(2) [OF ok fl0 p(1)] e p(1)
    show ?thesis
      by simp
  qed
  from all show frame: "\<forall>b \<in> live_segtabs cfg pmap s. seg_heap s1 b = seg_heap s b"
    by (elim conjE)
  from all show "nstb \<notin> live_segtabs cfg pmap s"
    by (elim conjE)
  from all show "nstb \<noteq> 0"
    by (elim conjE)
  from all show "stb_empty cfg s1 nstb"
    by (elim conjE)
  from all show "\<exists>fl1. pool_sep cfg pmap s1 fl1 \<and> nstb \<notin> set (fl1 @ free_page_segtabs cfg s1)"
    by (elim conjE)
  have "tree_ok cfg pmap s1 = tree_ok cfg pmap s"
    using frame by (rule tree_ok_cong)
  with kernel_okD(1) [OF k] show "tree_ok cfg pmap s1"
    by simp
  have l: "leaves cfg pmap s1 = leaves cfg pmap s"
    using frame by (rule leaves_cong)
  from all have p: "ptp_pgflist s1 = ptp_pgflist s"
    by (elim conjE)
  from all have u: "uvm_pages s1 = uvm_pages s \<or> uvm_pages s1 = tl (uvm_pages s)"
    by (elim conjE)
  from kernel_okD(3) [OF k] p u l show "pages_sep cfg pmap s1"
    by (rule pages_sep_tl)
qed

text \<open>Publishing a fresh segtab in a null slot of the root.\<close>

lemma publish_child_ok:
  fixes cfg :: "'a::len config"
  assumes lp: "LP64 cfg" and tree: "tree_ok cfg pmap s" and pool: "pool_sep cfg pmap s fl"
    and fresh: "nstb \<notin> set (fl @ free_page_segtabs cfg s)" and pages: "pages_sep cfg pmap s"
    and nstb: "nstb \<noteq> 0" "nstb \<notin> live_segtabs cfg pmap s" "stb_empty cfg s nstb"
    and i: "i < NSEGPG cfg" "seg_heap s (pm_segtab pmap) i = 0"
  shows "kernel_ok cfg pmap (seg_store (pm_segtab pmap) i nstb s)"
    and "children cfg pmap (seg_store (pm_segtab pmap) i nstb s) = insert nstb (children cfg pmap s)"
    and "leaves cfg pmap (seg_store (pm_segtab pmap) i nstb s) = leaves cfg pmap s"
proof -
  let ?r = "pm_segtab pmap"
  let ?s2 = "seg_store ?r i nstb s"
  have ne: "nstb \<noteq> ?r"
    using nstb(2) by (auto simp: live_segtabs_def)
  have rootnot: "?r \<notin> children cfg pmap s"
    using tree by (simp add: tree_ok_def)
  show ch: "children cfg pmap ?s2 = insert nstb (children cfg pmap s)"
    using lp nstb(1) i by (auto simp: children_def seg_store_heap)
  then have live: "live_segtabs cfg pmap ?s2 = insert nstb (live_segtabs cfg pmap s)"
    by (auto simp: live_segtabs_def)
  have other: "seg_heap ?s2 b = seg_heap s b" if "b \<noteq> ?r" for b
    using that by (simp add: seg_store_heap_other)
  have hb: "seg_heap ?s2 b = seg_heap s b" if "b \<in> insert nstb (children cfg pmap s)" for b
    using that rootnot ne by (intro other) auto
  have slots: "leaf_slots cfg pmap ?s2 = leaf_slots cfg pmap s"
  proof -
    have "seg_heap s nstb j = 0" if "j < PMAP_SEGTABSIZE cfg" for j
      using nstb(3) that by (simp add: stb_empty_iff)
    then show ?thesis
      using lp by (auto simp: leaf_slots_def bottoms_def ch hb)
  qed
  have vals: "(\<lambda>(b, j). seg_heap ?s2 b j) p = (\<lambda>(b, j). seg_heap s b j) p"
    if "p \<in> leaf_slots cfg pmap s" for p
    using that lp by (auto simp: leaf_slots_def bottoms_def hb)
  show lv: "leaves cfg pmap ?s2 = leaves cfg pmap s"
    unfolding leaves_def slots using vals by (intro image_cong) auto
  have inj_leaf: "inj_on (\<lambda>(b, j). seg_heap ?s2 b j) (leaf_slots cfg pmap ?s2)"
  proof -
    have "inj_on (\<lambda>(b, j). seg_heap ?s2 b j) (leaf_slots cfg pmap s) =
          inj_on (\<lambda>(b, j). seg_heap s b j) (leaf_slots cfg pmap s)"
      using vals by (intro inj_on_cong) auto
    with tree show ?thesis
      by (simp add: slots tree_ok_def)
  qed
  have inj_root: "inj_on (seg_heap ?s2 ?r) {j. j < NSEGPG cfg \<and> seg_heap ?s2 ?r j \<noteq> 0}"
  proof (rule inj_onI)
    fix x y
    assume x: "x \<in> {j. j < NSEGPG cfg \<and> seg_heap ?s2 ?r j \<noteq> 0}"
      and y: "y \<in> {j. j < NSEGPG cfg \<and> seg_heap ?s2 ?r j \<noteq> 0}"
      and eq: "seg_heap ?s2 ?r x = seg_heap ?s2 ?r y"
    have old: "inj_on (seg_heap s ?r) {j. j < NSEGPG cfg \<and> seg_heap s ?r j \<noteq> 0}"
      using tree lp by (simp add: tree_ok_def)
    have notch: "nstb \<notin> children cfg pmap s"
      using nstb(2) by (simp add: live_segtabs_def)
    show "x = y"
    proof (cases "x = i"; cases "y = i")
      assume "x = i" "y = i"
      then show ?thesis by simp
    next
      assume xi: "x = i" and yi: "y \<noteq> i"
      with eq have "seg_heap s ?r y = nstb"
        by (simp add: seg_store_heap)
      with y lp nstb(1) have "nstb \<in> children cfg pmap s"
        by (auto simp: children_def)
      with notch show ?thesis by simp
    next
      assume xi: "x \<noteq> i" and yi: "y = i"
      with eq have "seg_heap s ?r x = nstb"
        by (simp add: seg_store_heap)
      with x lp nstb(1) have "nstb \<in> children cfg pmap s"
        by (auto simp: children_def)
      with notch show ?thesis by simp
    next
      assume xi: "x \<noteq> i" and yi: "y \<noteq> i"
      with x y eq have "x \<in> {j. j < NSEGPG cfg \<and> seg_heap s ?r j \<noteq> 0}"
        "y \<in> {j. j < NSEGPG cfg \<and> seg_heap s ?r j \<noteq> 0}" "seg_heap s ?r x = seg_heap s ?r y"
        by (simp_all add: seg_store_heap)
      with old show ?thesis
        by (auto dest: inj_onD)
    qed
  qed
  have tree2: "tree_ok cfg pmap ?s2"
    using tree ne rootnot inj_leaf inj_root by (simp add: tree_ok_def ch lv)
  have flr: "\<forall>x \<in> set fl. x \<noteq> ?r"
    using pool by (auto simp: pool_sep_def)
  have pool2: "pool_sep cfg pmap ?s2 fl"
  proof -
    have "seg_chain (seg_heap ?s2) (free_segtab s) fl = seg_chain (seg_heap s) (free_segtab s) fl"
      using flr by (intro seg_chain_cong) (simp add: other)
    then show ?thesis
      using pool fresh flr by (auto simp: pool_sep_def live other)
  qed
  have pages2: "pages_sep cfg pmap ?s2"
    using pages by (simp add: pages_sep_def lv)
  from tree2 pool2 pages2 show "kernel_ok cfg pmap ?s2"
    by (auto simp: kernel_ok_def)
qed

text \<open>Getting the page for a leaf.\<close>

lemma reserve_page_cases:
  assumes "reserve_page cfg s = (pg, s3)"
  shows "(PMAP_PTP_CACHE cfg \<and> pg \<noteq> 0 \<and> (\<exists>rest. ptp_pgflist s = pg # rest \<and> s3 = s\<lparr>ptp_pgflist := rest\<rparr>)) \<or>
         (pg = 0 \<and> uvm_pages s = [] \<and> s3 = s) \<or>
         (\<exists>rest. uvm_pages s = pg # rest \<and> s3 = zero_page cfg pg (s\<lparr>uvm_pages := rest\<rparr>))"
  using assms
  by (auto simp: reserve_page_def ptp_cache_get_def pmap_pte_pagealloc_def PMAP_ALLOC_POOLPAGE_def
      Let_def split: if_splits list.splits)

lemma reserve_page_ok:
  fixes cfg :: "'a::len config"
  assumes k: "kernel_ok cfg pmap s" and rp: "reserve_page cfg s = (pg, s3)"
  shows "kernel_ok cfg pmap s3"
    and "\<forall>b \<in> live_segtabs cfg pmap s. seg_heap s3 b = seg_heap s b"
    and "pg \<noteq> 0 \<longrightarrow> pg \<notin> leaves cfg pmap s3 \<and> pg \<notin> set (ptp_pgflist s3 @ uvm_pages s3)"
proof -
  from kernel_okD(2) [OF k] obtain fl where fl: "pool_sep cfg pmap s fl"
    by blast
  note tree = kernel_okD(1) [OF k] and pages = kernel_okD(3) [OF k]
  have all: "kernel_ok cfg pmap s3 \<and> (\<forall>b \<in> live_segtabs cfg pmap s. seg_heap s3 b = seg_heap s b) \<and>
    (pg \<noteq> 0 \<longrightarrow> pg \<notin> leaves cfg pmap s3 \<and> pg \<notin> set (ptp_pgflist s3 @ uvm_pages s3))"
    using reserve_page_cases [OF rp]
  proof (elim disjE conjE exE)
    fix rest
    assume pg: "pg \<noteq> 0" and p: "ptp_pgflist s = pg # rest" and s3: "s3 = s\<lparr>ptp_pgflist := rest\<rparr>"
    have f: "seg_heap s3 = seg_heap s" "free_segtab s3 = free_segtab s"
      "uvm_pages s3 = uvm_pages s" "ptp_pgflist s3 = rest"
      by (simp_all add: s3)
    have frame: "\<forall>b \<in> live_segtabs cfg pmap s. seg_heap s3 b = seg_heap s b"
      by (simp add: f)
    have live: "live_segtabs cfg pmap s3 = live_segtabs cfg pmap s"
      using frame by (intro live_segtabs_cong) simp
    have lv: "leaves cfg pmap s3 = leaves cfg pmap s"
      using frame by (rule leaves_cong)
    have "tree_ok cfg pmap s3"
      using tree by (simp add: tree_ok_cong [OF frame])
    moreover have "pool_sep cfg pmap s3 fl"
      using fl by (rule pool_sep_frame) (simp_all add: f live)
    moreover have "pages_sep cfg pmap s3"
      using pages p by (auto simp: pages_sep_def lv f)
    moreover have "pg \<notin> leaves cfg pmap s3 \<and> pg \<notin> set (ptp_pgflist s3 @ uvm_pages s3)"
      using pages p by (auto simp: pages_sep_def lv f)
    ultimately show ?thesis
      using frame by (auto simp: kernel_ok_def)
  next
    assume "pg = 0" "s3 = s"
    with k show ?thesis
      by simp
  next
    fix rest
    assume u: "uvm_pages s = pg # rest" and s3: "s3 = zero_page cfg pg (s\<lparr>uvm_pages := rest\<rparr>)"
    from fl u have d: "distinct (fl @ page_segtabs cfg pg @ concat (map (page_segtabs cfg) rest))"
      and disj: "set (fl @ page_segtabs cfg pg @ concat (map (page_segtabs cfg) rest)) \<inter> live_segtabs cfg pmap s = {}"
      by (simp_all add: pool_sep_def free_page_segtabs_def)
    have zh: "seg_heap s3 x = seg_heap s x" if "x \<notin> set (page_segtabs cfg pg)" for x
      using that by (simp add: s3 zero_page_def)
    have f: "free_segtab s3 = free_segtab s" "uvm_pages s3 = rest" "ptp_pgflist s3 = ptp_pgflist s"
      by (simp_all add: s3)
    have frame: "\<forall>b \<in> live_segtabs cfg pmap s. seg_heap s3 b = seg_heap s b"
      using disj by (auto intro!: zh)
    have live: "live_segtabs cfg pmap s3 = live_segtabs cfg pmap s"
      using frame by (intro live_segtabs_cong) simp
    have lv: "leaves cfg pmap s3 = leaves cfg pmap s"
      using frame by (rule leaves_cong)
    have "tree_ok cfg pmap s3"
      using tree by (simp add: tree_ok_cong [OF frame])
    moreover have "pool_sep cfg pmap s3 fl"
    proof -
      have same: "\<forall>x \<in> set fl. seg_heap s3 x = seg_heap s x"
        using d by (auto intro!: zh)
      then have "seg_chain (seg_heap s3) (free_segtab s) fl = seg_chain (seg_heap s) (free_segtab s) fl"
        by (intro seg_chain_cong) simp
      then show ?thesis
        using fl d disj same by (auto simp: pool_sep_def free_page_segtabs_def live f)
    qed
    moreover have "pages_sep cfg pmap s3"
      using pages u by (auto simp: pages_sep_def lv f)
    moreover have "pg \<notin> leaves cfg pmap s3 \<and> pg \<notin> set (ptp_pgflist s3 @ uvm_pages s3)"
      using pages u by (auto simp: pages_sep_def lv f)
    ultimately show ?thesis
      using frame by (auto simp: kernel_ok_def)
  qed
  from all show "kernel_ok cfg pmap s3"
    by (elim conjE)
  from all show "\<forall>b \<in> live_segtabs cfg pmap s. seg_heap s3 b = seg_heap s b"
    by (elim conjE)
  from all show "pg \<noteq> 0 \<longrightarrow> pg \<notin> leaves cfg pmap s3 \<and> pg \<notin> set (ptp_pgflist s3 @ uvm_pages s3)"
    by (elim conjE)
qed

text \<open>Publishing a leaf in a null slot of a bottom-level segtab.\<close>

lemma publish_leaf_ok:
  fixes cfg :: "'a::len config"
  assumes k: "kernel_ok cfg pmap s" and stb: "stb \<in> bottoms cfg pmap s"
    and i: "i < PMAP_SEGTABSIZE cfg" "seg_heap s stb i = 0"
    and pte: "pte \<noteq> 0" "pte AND PAGE_MASK cfg = 0" "pte \<notin> leaves cfg pmap s"
      "pte \<notin> set (ptp_pgflist s @ uvm_pages s)"
  shows "kernel_ok cfg pmap (seg_store stb i pte s)"
    and "live_segtabs cfg pmap (seg_store stb i pte s) = live_segtabs cfg pmap s"
    and "LP64 cfg \<longrightarrow> seg_heap (seg_store stb i pte s) (pm_segtab pmap) = seg_heap s (pm_segtab pmap)"
proof -
  let ?r = "pm_segtab pmap"
  let ?s4 = "seg_store stb i pte s"
  from kernel_okD(2) [OF k] obtain fl where fl: "pool_sep cfg pmap s fl"
    by blast
  note tree = kernel_okD(1) [OF k] and pages = kernel_okD(3) [OF k]
  have rootnot: "?r \<notin> children cfg pmap s"
    using tree by (simp add: tree_ok_def)
  have ne: "stb \<noteq> ?r" if "LP64 cfg"
    using that stb rootnot by (auto simp: bottoms_def)
  then show root: "LP64 cfg \<longrightarrow> seg_heap ?s4 ?r = seg_heap s ?r"
    by (auto simp: seg_store_heap_other)
  have ch: "children cfg pmap ?s4 = children cfg pmap s"
  proof (cases "LP64 cfg")
    case True
    with root show ?thesis
      by (intro children_cong) simp
  next
    case False
    then show ?thesis
      by (simp add: children_def)
  qed
  then show live: "live_segtabs cfg pmap ?s4 = live_segtabs cfg pmap s"
    by (simp add: live_segtabs_def)
  have bt: "bottoms cfg pmap ?s4 = bottoms cfg pmap s"
    by (simp add: bottoms_def ch)
  have slots: "leaf_slots cfg pmap ?s4 = insert (stb, i) (leaf_slots cfg pmap s)"
    using stb i pte(1) by (auto simp: leaf_slots_def bt seg_store_heap)
  have notin: "(stb, i) \<notin> leaf_slots cfg pmap s"
    using i(2) by (simp add: leaf_slots_def)
  have vals: "(\<lambda>(b, j). seg_heap ?s4 b j) p = (\<lambda>(b, j). seg_heap s b j) p"
    if "p \<in> leaf_slots cfg pmap s" for p
    using that notin by (cases p) (auto simp: seg_store_heap)
  have img: "(\<lambda>(b, j). seg_heap ?s4 b j) ` leaf_slots cfg pmap s = leaves cfg pmap s"
    unfolding leaves_def using vals by (intro image_cong) auto
  have lv: "leaves cfg pmap ?s4 = insert pte (leaves cfg pmap s)"
    unfolding leaves_def [of cfg pmap ?s4] slots by (simp add: img seg_store_heap)
  have inj_leaf: "inj_on (\<lambda>(b, j). seg_heap ?s4 b j) (leaf_slots cfg pmap ?s4)"
  proof -
    have "inj_on (\<lambda>(b, j). seg_heap ?s4 b j) (leaf_slots cfg pmap s) =
          inj_on (\<lambda>(b, j). seg_heap s b j) (leaf_slots cfg pmap s)"
      using vals by (intro inj_on_cong) auto
    with tree have "inj_on (\<lambda>(b, j). seg_heap ?s4 b j) (leaf_slots cfg pmap s)"
      by (simp add: tree_ok_def)
    moreover have d: "leaf_slots cfg pmap s - {(stb, i)} = leaf_slots cfg pmap s"
      using notin by auto
    have "(\<lambda>(b, j). seg_heap ?s4 b j) (stb, i) \<notin>
        (\<lambda>(b, j). seg_heap ?s4 b j) ` (leaf_slots cfg pmap s - {(stb, i)})"
      unfolding d img using pte(3) by (simp add: seg_store_heap)
    ultimately show ?thesis
      unfolding slots inj_on_insert by (rule conjI)
  qed
  have tree4: "tree_ok cfg pmap ?s4"
    using tree inj_leaf pte(2) root by (auto simp: tree_ok_def ch lv)
  have stblive: "stb \<in> live_segtabs cfg pmap s"
    using stb by (rule bottoms_live)
  have pool4: "pool_sep cfg pmap ?s4 fl"
  proof -
    have same: "\<forall>x \<in> set fl. seg_heap ?s4 x = seg_heap s x"
      using fl stblive by (auto simp: pool_sep_def intro!: seg_store_heap_other)
    show ?thesis
      using fl same by (rule pool_sep_frame) (simp_all add: live)
  qed
  have pages4: "pages_sep cfg pmap ?s4"
    using pages pte(4) by (auto simp: pages_sep_def lv)
  from tree4 pool4 pages4 show "kernel_ok cfg pmap ?s4"
    by (auto simp: kernel_ok_def)
qed

text \<open>The three-level block of the reserve engine.\<close>

lemma reserve_segtab_ok:
  fixes cfg :: "'a::len config"
  assumes ok: "config_ok cfg" and k: "kernel_ok cfg pmap s"
    and null: "pmap_segmap cfg pmap s va = 0"
    and ret: "reserve_segtab cfg pmap va s = Some (Inr (stb, s1))"
  shows "kernel_ok cfg pmap s1 \<and> stb \<in> bottoms cfg pmap s1 \<and>
    seg_heap s1 stb (seg_index cfg va) = 0 \<and>
    (if LP64 cfg then seg_heap s1 (pm_segtab pmap) (xseg_index cfg va) = stb \<and> stb \<noteq> 0
     else stb = pm_segtab pmap) \<and>
    (\<forall>b \<in> live_segtabs cfg pmap s. \<forall>i < PMAP_SEGTABSIZE cfg.
       seg_heap s b i \<noteq> 0 \<longrightarrow> seg_heap s1 b i = seg_heap s b i) \<and>
    live_segtabs cfg pmap s \<subseteq> live_segtabs cfg pmap s1"
proof (cases "LP64 cfg")
  case False
  with ret have "stb = pm_segtab pmap" "s1 = s"
    by (simp_all add: reserve_segtab_def)
  with False k null show ?thesis
    by (simp add: bottoms_def pmap_segmap_def)
next
  case True
  let ?r = "pm_segtab pmap"
  let ?i = "xseg_index cfg va"
  have i: "?i < NSEGPG cfg"
    using ok True by (rule xseg_index_less)
  show ?thesis
  proof (cases "seg_heap s ?r ?i = 0")
    case False
    with ret True have e: "stb = seg_heap s ?r ?i" "s1 = s"
      by (auto simp: reserve_segtab_def)
    have "stb \<in> bottoms cfg pmap s"
      using True False i by (auto simp: bottoms_def children_def e)
    moreover have "seg_heap s stb (seg_index cfg va) = 0"
      using null True False by (simp add: pmap_segmap_def e)
    ultimately show ?thesis
      using k True False by (simp add: e)
  next
    case slot: True
    from ret True slot obtain r where al: "pmap_segtab_alloc cfg s = Some r"
      by (auto simp: reserve_segtab_def split: bind_splits)
    from ret True slot al obtain nstb s0 where r: "r = Inr (nstb, s0)"
      by (cases r) (auto simp: reserve_segtab_def)
    note a = alloc_ok [OF ok k al [unfolded r]]
    from a(5) obtain fl1 where fl1: "pool_sep cfg pmap s0 fl1"
      and fresh: "nstb \<notin> set (fl1 @ free_page_segtabs cfg s0)"
      by blast
    have root0: "seg_heap s0 ?r = seg_heap s ?r"
      using a(1) by simp
    have live0: "live_segtabs cfg pmap s0 = live_segtabs cfg pmap s"
      using a(1) by (intro live_segtabs_cong) simp
    have slot0: "seg_heap s0 ?r ?i = 0"
      using slot by (simp add: root0)
    let ?s2 = "seg_store ?r ?i nstb s0"
    have res: "stb = nstb" "s1 = ?s2"
      using ret True slot al r slot0
      by (auto simp: reserve_segtab_def atomic_cas_ptr_def Let_def split: if_splits)
    have nl: "nstb \<notin> live_segtabs cfg pmap s0"
      using a(2) by (simp add: live0)
    note p = publish_child_ok [OF True a(6) fl1 fresh a(7) a(3) nl a(4) i slot0]
    have ne: "nstb \<noteq> ?r"
      using a(2) by auto
    have "stb \<in> bottoms cfg pmap s1"
      using True p(2) by (simp add: bottoms_def res)
    moreover have "seg_heap s1 stb (seg_index cfg va) = 0"
      using a(4) ne seg_index_less [OF ok, of va]
      by (simp add: res seg_store_heap_other stb_empty_iff)
    moreover have "seg_heap s1 ?r ?i = stb"
      by (simp add: res seg_store_heap)
    moreover have "seg_heap s1 b j = seg_heap s b j"
      if "b \<in> live_segtabs cfg pmap s" "seg_heap s b j \<noteq> 0" for b j
    proof -
      have "seg_heap s0 b = seg_heap s b"
        using a(1) that(1) by simp
      moreover have "(b, j) \<noteq> (?r, ?i)"
        using that(2) slot by auto
      ultimately show ?thesis
        by (auto simp: res seg_store_heap)
    qed
    moreover have "live_segtabs cfg pmap s \<subseteq> live_segtabs cfg pmap s1"
      using p(2) by (auto simp: live_segtabs_def res live0 [unfolded live_segtabs_def, symmetric])
    ultimately show ?thesis
      using True p(1) a(3) by (simp add: res)
  qed
qed

text \<open>The rest of the slow path of the reserve engine.\<close>

lemma reserve_leaf_ok:
  fixes cfg :: "'a::len config"
  assumes ok: "config_ok cfg" and k: "kernel_ok cfg pmap s1"
    and stb: "stb \<in> bottoms cfg pmap s1"
    and slot: "seg_heap s1 stb (seg_index cfg va) = 0"
    and ret: "reserve_leaf cfg stb va flags s1 = Inr (X, s')"
  shows "kernel_ok cfg pmap s' \<and>
    (\<forall>b \<in> live_segtabs cfg pmap s1. \<forall>i < PMAP_SEGTABSIZE cfg.
       seg_heap s1 b i \<noteq> 0 \<longrightarrow> seg_heap s' b i = seg_heap s1 b i) \<and>
    live_segtabs cfg pmap s' = live_segtabs cfg pmap s1 \<and>
    (LP64 cfg \<longrightarrow> seg_heap s' (pm_segtab pmap) = seg_heap s1 (pm_segtab pmap)) \<and>
    (X \<noteq> 0 \<longrightarrow> seg_heap s' stb (seg_index cfg va) \<noteq> 0 \<and>
       X = seg_heap s' stb (seg_index cfg va) + of_nat (sizeof_pte cfg) * pte_index cfg va)"
proof -
  let ?i = "seg_index cfg va"
  obtain pg s2 where rp: "reserve_page cfg s1 = (pg, s2)"
    by (cases "reserve_page cfg s1")
  note p = reserve_page_ok [OF k rp]
  have live2: "live_segtabs cfg pmap s2 = live_segtabs cfg pmap s1"
    using p(2) by (intro live_segtabs_cong) simp
  have bt2: "bottoms cfg pmap s2 = bottoms cfg pmap s1"
    using p(2) by (intro bottoms_cong) simp
  have stblive: "stb \<in> live_segtabs cfg pmap s1"
    using stb by (rule bottoms_live)
  show ?thesis
  proof (cases "pg = 0")
    case True
    with ret rp have "X = 0" "s' = s2"
      by (auto simp: reserve_leaf_def split: if_splits)
    with p live2 show ?thesis
      by simp
  next
    case False
    have slot2: "seg_heap s2 stb ?i = 0"
      using p(2) stblive slot by simp
    let ?s4 = "seg_store stb ?i pg s2"
    from ret rp False slot2 have chk: "pmap_check_ptes cfg ?s4 pg = Inr ()"
      and res: "X = pg + of_nat (sizeof_pte cfg) * pte_index cfg va" "s' = ?s4"
      by (auto simp: reserve_leaf_def atomic_cas_ptr_def Let_def VM_PAGE_TO_PHYS_def
          PMAP_MAP_POOLPAGE_def split: if_splits sum.splits)
    have al: "pg AND PAGE_MASK cfg = 0"
      using chk by (rule pmap_check_ptes_Inr)
    from p(3) False have fresh: "pg \<notin> leaves cfg pmap s2" "pg \<notin> set (ptp_pgflist s2 @ uvm_pages s2)"
      by simp_all
    have stb2: "stb \<in> bottoms cfg pmap s2"
      using stb by (simp add: bt2)
    note q = publish_leaf_ok [OF p(1) stb2 seg_index_less [OF ok] slot2 False al fresh]
    have "seg_heap s' b j = seg_heap s1 b j"
      if "b \<in> live_segtabs cfg pmap s1" "seg_heap s1 b j \<noteq> 0" for b j
    proof -
      have "seg_heap s2 b = seg_heap s1 b"
        using p(2) that(1) by simp
      moreover have "(b, j) \<noteq> (stb, ?i)"
        using that(2) slot by auto
      ultimately show ?thesis
        by (auto simp: res seg_store_heap)
    qed
    moreover have "LP64 cfg \<longrightarrow> seg_heap s' (pm_segtab pmap) = seg_heap s1 (pm_segtab pmap)"
      using q(3) p(2) by (simp add: res)
    moreover have "seg_heap s' stb ?i = pg"
      by (simp add: res seg_store_heap)
    ultimately show ?thesis
      using q(1,2) False by (simp add: res(2) live2) (simp add: res(1))
  qed
qed

text \<open>The reserve engine preserves well-formedness, never changes a populated slot of the
  directory, and a non-null result is what a lookup finds afterwards.\<close>

lemma reserve_ok:
  fixes cfg :: "'a::len config"
  assumes ok: "config_ok cfg" and k: "kernel_ok cfg pmap s"
    and ret: "pmap_pte_reserve cfg pmap va flags s = Some (Inr (X, s'))"
  shows "kernel_ok cfg pmap s'"
    and "\<forall>b \<in> live_segtabs cfg pmap s. \<forall>i < PMAP_SEGTABSIZE cfg.
       seg_heap s b i \<noteq> 0 \<longrightarrow> seg_heap s' b i = seg_heap s b i"
    and "live_segtabs cfg pmap s \<subseteq> live_segtabs cfg pmap s'"
    and "X \<noteq> 0 \<longrightarrow> pmap_pte_lookup cfg pmap s' va = X"
proof -
  have all: "kernel_ok cfg pmap s' \<and>
    (\<forall>b \<in> live_segtabs cfg pmap s. \<forall>i < PMAP_SEGTABSIZE cfg.
       seg_heap s b i \<noteq> 0 \<longrightarrow> seg_heap s' b i = seg_heap s b i) \<and>
    live_segtabs cfg pmap s \<subseteq> live_segtabs cfg pmap s' \<and>
    (X \<noteq> 0 \<longrightarrow> pmap_pte_lookup cfg pmap s' va = X)"
  proof (cases "pmap_pte_lookup cfg pmap s va = 0")
    case False
    with ret have "X = pmap_pte_lookup cfg pmap s va" "s' = s"
      by (auto simp: pmap_pte_reserve_def)
    with k show ?thesis
      by simp
  next
    case True
    then have null: "pmap_segmap cfg pmap s va = 0"
      using pmap_pte_lookup_null_iff [OF ok kernel_okD(1) [OF k]] by simp
    from ret True obtain r where rs: "reserve_segtab cfg pmap va s = Some r"
      by (auto simp: pmap_pte_reserve_def split: bind_splits)
    from ret True rs obtain stb s1 where r: "r = Inr (stb, s1)"
      and rl: "reserve_leaf cfg stb va flags s1 = Inr (X, s')"
      by (cases r) (auto simp: pmap_pte_reserve_def)
    note a = reserve_segtab_ok [OF ok k null rs [unfolded r]]
    from a have k1: "kernel_ok cfg pmap s1" and stb: "stb \<in> bottoms cfg pmap s1"
      and slot: "seg_heap s1 stb (seg_index cfg va) = 0"
      and sub: "live_segtabs cfg pmap s \<subseteq> live_segtabs cfg pmap s1"
      by simp_all
    from a have mono1: "seg_heap s1 b i = seg_heap s b i"
      if "b \<in> live_segtabs cfg pmap s" "i < PMAP_SEGTABSIZE cfg" "seg_heap s b i \<noteq> 0" for b i
      using that by simp
    from a have top: "if LP64 cfg then seg_heap s1 (pm_segtab pmap) (xseg_index cfg va) = stb \<and> stb \<noteq> 0
       else stb = pm_segtab pmap"
      by simp
    note b = reserve_leaf_ok [OF ok k1 stb slot rl]
    from b have k': "kernel_ok cfg pmap s'"
      and live': "live_segtabs cfg pmap s' = live_segtabs cfg pmap s1"
      and root': "LP64 cfg \<longrightarrow> seg_heap s' (pm_segtab pmap) = seg_heap s1 (pm_segtab pmap)"
      and res: "X \<noteq> 0 \<longrightarrow> seg_heap s' stb (seg_index cfg va) \<noteq> 0 \<and>
       X = seg_heap s' stb (seg_index cfg va) + of_nat (sizeof_pte cfg) * pte_index cfg va"
      by simp_all
    from b have mono2: "seg_heap s' b i = seg_heap s1 b i"
      if "b \<in> live_segtabs cfg pmap s1" "i < PMAP_SEGTABSIZE cfg" "seg_heap s1 b i \<noteq> 0" for b i
      using that by simp
    have mono: "seg_heap s' b i = seg_heap s b i"
      if "b \<in> live_segtabs cfg pmap s" "i < PMAP_SEGTABSIZE cfg" "seg_heap s b i \<noteq> 0" for b i
    proof -
      have e: "seg_heap s1 b i = seg_heap s b i"
        using that by (rule mono1)
      have "seg_heap s' b i = seg_heap s1 b i"
        using that sub by (intro mono2) (auto simp: e)
      with e show ?thesis
        by simp
    qed
    have "pmap_pte_lookup cfg pmap s' va = X" if "X \<noteq> 0"
    proof -
      have "pmap_segmap cfg pmap s' va = seg_heap s' stb (seg_index cfg va)"
        using top root' by (auto simp: pmap_segmap_def Let_def split: if_splits)
      with res that show ?thesis
        by (simp add: pmap_pte_lookup_def)
    qed
    with k' mono sub live' show ?thesis
      by simp
  qed
  then show "kernel_ok cfg pmap s'"
    and "\<forall>b \<in> live_segtabs cfg pmap s. \<forall>i < PMAP_SEGTABSIZE cfg.
       seg_heap s b i \<noteq> 0 \<longrightarrow> seg_heap s' b i = seg_heap s b i"
    and "live_segtabs cfg pmap s \<subseteq> live_segtabs cfg pmap s'"
    and "X \<noteq> 0 \<longrightarrow> pmap_pte_lookup cfg pmap s' va = X"
    by blast+
qed

section \<open>Concrete well-formed states\<close>

lemma page_segtabs_spec_cfg: "page_segtabs spec_cfg pg = [pg, pg + 0x800]"
  by (simp add: page_segtabs_def segtabs_per_page_def NBPG_def stb_at_def spec_cfg_def upt_rec)

lemma page_state32_ok: "kernel_ok spec_cfg root32 page_state32"
proof -
  have lp: "\<not> LP64 spec_cfg"
    by (simp add: spec_cfg_def)
  have ls: "leaf_slots spec_cfg root32 page_state32 = {}"
    by (simp add: leaf_slots_def page_state32_def boot_state_def)
  have "tree_ok spec_cfg root32 page_state32"
    by (simp add: tree_ok_def children_def lp ls leaves_def) (simp add: root32_def)
  moreover have "pool_sep spec_cfg root32 page_state32 []"
    by (simp add: pool_sep_def free_page_segtabs_def live_segtabs_def children_def lp
        page_segtabs_spec_cfg page_state32_def boot_state_def root32_def)
  moreover have "pages_sep spec_cfg root32 page_state32"
    by (simp add: pages_sep_def leaves_def ls)
      (simp add: page_state32_def boot_state_def PAGE_MASK_def NBPG_def spec_cfg_def)
  ultimately show ?thesis
    unfolding kernel_ok_def by blast
qed

lemma reserve_page_state32:
  "pmap_pte_reserve spec_cfg root32 0x400000 0 page_state32 = Some (Inr (0x80030000, reserved_state32))"
  by (simp add: reserve_eval spec_cfg_def root32_def page_state32_def reserved_state32_def
      boot_state_def zero_page_def seg_store_def page_segtabs_def segtabs_per_page_def stb_at_def
      NBPG_def upt_rec Let_def VM_PAGE_TO_PHYS_def PMAP_MAP_POOLPAGE_def pmap_check_ptes_def
      PAGE_MASK_def)

lemma run_ops_ok:
  fixes cfg :: "'a::len config"
  assumes ok: "config_ok cfg"
  shows "kernel_ok cfg pmap s \<Longrightarrow> run_ops cfg pmap ops s = Some (Inr s') \<Longrightarrow>
    kernel_ok cfg pmap s' \<and> live_segtabs cfg pmap s \<subseteq> live_segtabs cfg pmap s' \<and>
    (\<forall>b \<in> live_segtabs cfg pmap s. \<forall>i < PMAP_SEGTABSIZE cfg.
       seg_heap s b i \<noteq> 0 \<longrightarrow> seg_heap s' b i = seg_heap s b i)"
proof (induction ops arbitrary: s)
  case Nil
  then show ?case
    by simp
next
  case (Cons op ops)
  show ?case
  proof (cases op)
    case (Lookup va)
    with Cons.prems have "run_ops cfg pmap ops s = Some (Inr s')"
      by simp
    with Cons.prems(1) show ?thesis
      by (rule Cons.IH)
  next
    case (Reserve va flags)
    with Cons.prems(2) obtain r where r: "pmap_pte_reserve cfg pmap va flags s = Some r"
      by (auto split: bind_splits)
    with Cons.prems(2) Reserve obtain X s1 where r1: "r = Inr (X, s1)"
      and rest: "run_ops cfg pmap ops s1 = Some (Inr s')"
      by (cases r) auto
    note a = reserve_ok [OF ok Cons.prems(1) r [unfolded r1]]
    note b = Cons.IH [OF a(1) rest]
    have "seg_heap s' b i = seg_heap s b i"
      if "b \<in> live_segtabs cfg pmap s" "i < PMAP_SEGTABSIZE cfg" "seg_heap s b i \<noteq> 0" for b i
    proof -
      have e: "seg_heap s1 b i = seg_heap s b i"
        using a(2) that by simp
      have "b \<in> live_segtabs cfg pmap s1"
        using a(3) that(1) by auto
      then have "seg_heap s' b i = seg_heap s1 b i"
        using b that(2,3) e by simp
      with e show ?thesis
        by simp
    qed
    with a(3) b show ?thesis
      by auto
  qed
qed

lemmas cfg3_eval =
  reserve_eval cfg3_def root16_def pages_state16_def reserved_state16_def reserved_state16'_def
  boot_state_def zero_page_def seg_store_def page_segtabs_def segtabs_per_page_def stb_at_def
  NBPG_def upt_rec Let_def VM_PAGE_TO_PHYS_def PMAP_MAP_POOLPAGE_def pmap_check_ptes_def
  PAGE_MASK_def pmap_segtab_alloc.simps checked_stb_def pmap_check_stb_def segtab_link_page_def
  fresh_segtab_state_def atomic_cas_ptr_def link_step_def uvm_wait_def

lemma reserve_pages_state16:
  "pmap_pte_reserve cfg3 root16 0x140 0 pages_state16 = Some (Inr (0x400, reserved_state16))"
  by (simp add: cfg3_eval)

lemma reserve_reserved_state16:
  "pmap_pte_reserve cfg3 root16 0x180 0 reserved_state16 = Some (Inr (0x500, reserved_state16'))"
  by (simp add: cfg3_eval)

lemma page_segtabs_cfg3: "page_segtabs cfg3 pg = [pg, pg + 8]"
  by (simp add: page_segtabs_def segtabs_per_page_def NBPG_def stb_at_def cfg3_def upt_rec)

lemma pages_state16_ok: "kernel_ok cfg3 root16 pages_state16"
proof -
  have ch: "children cfg3 root16 pages_state16 = {}"
    by (simp add: children_def pages_state16_def boot_state_def)
  have ls: "leaf_slots cfg3 root16 pages_state16 = {}"
    by (simp add: leaf_slots_def pages_state16_def boot_state_def)
  have "tree_ok cfg3 root16 pages_state16"
    by (simp add: tree_ok_def ch ls leaves_def) (simp add: root16_def pages_state16_def boot_state_def)
  moreover have "pool_sep cfg3 root16 pages_state16 []"
    by (simp add: pool_sep_def free_page_segtabs_def live_segtabs_def ch)
      (simp add: page_segtabs_cfg3 pages_state16_def boot_state_def root16_def)
  moreover have "pages_sep cfg3 root16 pages_state16"
    by (simp add: pages_sep_def leaves_def ls)
      (simp add: pages_state16_def boot_state_def PAGE_MASK_def NBPG_def cfg3_def)
  ultimately show ?thesis
    unfolding kernel_ok_def by blast
qed

section \<open>Isolation of entries\<close>


lemma drop_bit_eq_0_if_less:
  fixes x :: "'a::len word"
  assumes "unat x < 2 ^ n"
  shows "drop_bit n x = 0"
proof -
  have "unat (drop_bit n x) = unat x div 2 ^ n"
    by (simp add: unat_drop_bit_eq drop_bit_nat_def)
  with assms have "unat (drop_bit n x) = 0"
    by simp
  then show ?thesis
    by (simp only: unat_eq_0)
qed

lemma and_pow2_take_bit:
  fixes x :: "'a::len word"
  shows "x AND (of_nat (2 ^ k) - 1) = take_bit k x"
  by (simp add: take_bit_eq_mask mask_eq_decr_exp)







section \<open>The teardown engine\<close>

lemma leaf_zero_iff: "leaf_zero cfg s p \<longleftrightarrow> (\<forall>n < NPTEPG cfg. pte_heap s p n = 0)"
  by (auto simp: leaf_zero_def list_all_iff)

lemma slot_ptrs_step:
  assumes "i < PMAP_SEGTABSIZE cfg"
  shows "slot_ptrs cfg s b i =
    (if seg_heap s b i \<noteq> 0 then [seg_heap s b i] else []) @ slot_ptrs cfg s b (Suc i)"
  using assms by (simp add: slot_ptrs_def upt_conv_Cons)

lemma slot_ptrs_end: "PMAP_SEGTABSIZE cfg \<le> i \<Longrightarrow> slot_ptrs cfg s b i = []"
  by (simp add: slot_ptrs_def)

lemma slot_ptrs_cong:
  assumes "\<And>j. i \<le> j \<Longrightarrow> j < PMAP_SEGTABSIZE cfg \<Longrightarrow> seg_heap s' b j = seg_heap s b j"
  shows "slot_ptrs cfg s' b i = slot_ptrs cfg s b i"
  unfolding slot_ptrs_def using assms by (intro arg_cong [where f = "filter _"] map_cong) auto

lemma set_slot_ptrs:
  "set (slot_ptrs cfg s b i) =
     {p. p \<noteq> 0 \<and> (\<exists>j. i \<le> j \<and> j < PMAP_SEGTABSIZE cfg \<and> seg_heap s b j = p)}"
  by (auto simp: slot_ptrs_def)

lemma pages_given_refl: "pages_given cfg [] s s"
  by (simp add: pages_given_def)

lemma pages_given_trans:
  assumes "pages_given cfg ps s s1" "pages_given cfg qs s1 s2"
  shows "pages_given cfg (ps @ qs) s s2"
  using assms by (auto simp: pages_given_def split: if_splits)

text \<open>One step of the loop on a bottom-level segtab.\<close>

lemma release_leaf_step:
  fixes cfg :: "'a::len config"
  assumes al: "seg_heap s b i AND PAGE_MASK cfg = 0"
    and dz: "DEBUG cfg \<longrightarrow> seg_heap s b i \<noteq> 0 \<longrightarrow> leaf_zero cfg s (seg_heap s b i)"
    and cbz: "\<forall>cb. func = Some cb \<longrightarrow> zeroing cfg cb"
  shows "\<exists>s1. release_leaf cfg func flags b i va vinc (pmap, s) = Inr (pmap, s1) \<and>
     seg_heap s1 = (seg_heap s)(b := (seg_heap s b)(i := 0)) \<and>
     free_segtab s1 = free_segtab s \<and>
     pages_given cfg (if seg_heap s b i \<noteq> 0 then [seg_heap s b i] else []) s s1 \<and>
     (\<forall>p. leaf_zero cfg s p \<longrightarrow> leaf_zero cfg s1 p) \<and>
     (func \<noteq> None \<and> seg_heap s b i \<noteq> 0 \<longrightarrow> leaf_zero cfg s1 (seg_heap s b i))"
proof (cases "seg_heap s b i = 0")
  case True
  then have "release_leaf cfg func flags b i va vinc (pmap, s) = Inr (pmap, s)"
    by (simp add: release_leaf_def)
  moreover have "seg_heap s = (seg_heap s)(b := (seg_heap s b)(i := 0))"
    using True by (auto simp: fun_eq_iff)
  ultimately show ?thesis
    using True by (auto simp: pages_given_def)
next
  case False
  let ?pte = "seg_heap s b i"
  have chk: "pmap_check_ptes cfg s ?pte = Inr ()"
    using al dz False by (auto simp: pmap_check_ptes_def leaf_zero_def list_all_iff list_ex_iff)
  define s1 where "s1 = (case func of None \<Rightarrow> s
     | Some f \<Rightarrow> invoke_callback f pmap va (va + vinc) ?pte flags s)"
  define s2 where "s2 = (if PMAP_PTP_CACHE cfg then s1\<lparr>ptp_pgflist := ?pte # ptp_pgflist s1\<rparr>
     else uvm_pagefree ?pte s1)"
  have r: "release_leaf cfg func flags b i va vinc (pmap, s) = Inr (pmap, seg_store b i 0 s2)"
    using False chk
    by (simp add: release_leaf_def Let_def s1_def s2_def PMAP_UNMAP_POOLPAGE_def PHYS_TO_VM_PAGE_def)
  have f1: "seg_heap s1 = seg_heap s" "free_segtab s1 = free_segtab s"
    "ptp_pgflist s1 = ptp_pgflist s" "uvm_pages s1 = uvm_pages s"
    by (simp_all add: s1_def invoke_callback_def split: option.splits)
  have z1: "leaf_zero cfg s1 p" if "leaf_zero cfg s p" for p
  proof (cases func)
    case None
    with that show ?thesis
      by (simp add: s1_def)
  next
    case (Some cb)
    with cbz have z: "zeroing cfg cb"
      by simp
    show ?thesis
    proof (cases "p = ?pte")
      case True
      with z show ?thesis
        by (simp add: s1_def Some invoke_callback_def leaf_zero_iff zeroing_def)
    next
      case False
      with z that show ?thesis
        by (simp add: s1_def Some invoke_callback_def leaf_zero_iff zeroing_def)
    qed
  qed
  have z1': "leaf_zero cfg s1 ?pte" if "func \<noteq> None"
  proof -
    from that obtain cb where cb: "func = Some cb"
      by auto
    with cbz have "zeroing cfg cb"
      by simp
    then show ?thesis
      by (simp add: s1_def cb invoke_callback_def leaf_zero_iff zeroing_def)
  qed
  have f2: "seg_heap s2 = seg_heap s" "free_segtab s2 = free_segtab s" "pte_heap s2 = pte_heap s1"
    by (simp_all add: s2_def uvm_pagefree_def f1)
  have pg: "pages_given cfg [?pte] s s2"
    by (simp add: pages_given_def s2_def uvm_pagefree_def f1)
  let ?s3 = "seg_store b i 0 s2"
  have f3: "seg_heap ?s3 = (seg_heap s)(b := (seg_heap s b)(i := 0))" "free_segtab ?s3 = free_segtab s"
    "pte_heap ?s3 = pte_heap s1" "ptp_pgflist ?s3 = ptp_pgflist s2" "uvm_pages ?s3 = uvm_pages s2"
    by (simp_all add: seg_store_def f2)
  have "pages_given cfg [?pte] s ?s3"
    using pg by (simp add: pages_given_def f3)
  moreover have "leaf_zero cfg ?s3 p" if "leaf_zero cfg s p" for p
    using z1 [OF that] by (simp add: leaf_zero_def f2 f3)
  moreover have "func \<noteq> None \<longrightarrow> leaf_zero cfg ?s3 ?pte"
    using z1' by (simp add: leaf_zero_def f2 f3)
  ultimately show ?thesis
    using r f3(1,2) False by auto
qed

text \<open>The loop of \<^verbatim>\<open>pmap_segtab_release\<close> on a bottom-level segtab.\<close>

lemma release_loop_leaves:
  fixes cfg :: "'a::len config"
  assumes nl: "\<not> (LP64 cfg \<and> NBSEG cfg < vinc)"
    and cbz: "\<forall>cb. func = Some cb \<longrightarrow> zeroing cfg cb"
  shows "(\<forall>j < PMAP_SEGTABSIZE cfg. seg_heap s b j AND PAGE_MASK cfg = 0) \<Longrightarrow>
    (DEBUG cfg \<longrightarrow> (\<forall>p \<in> set (slot_ptrs cfg s b i). leaf_zero cfg s p)) \<Longrightarrow>
    \<exists>s'. release_loop cfg func flags b i va vinc (pmap, s) = Some (Inr (pmap, s')) \<and>
     seg_heap s' = (seg_heap s)(b := (\<lambda>j. if i \<le> j \<and> j < PMAP_SEGTABSIZE cfg then 0
                                          else seg_heap s b j)) \<and>
     free_segtab s' = free_segtab s \<and>
     pages_given cfg (slot_ptrs cfg s b i) s s' \<and>
     (\<forall>p. leaf_zero cfg s p \<longrightarrow> leaf_zero cfg s' p) \<and>
     (func \<noteq> None \<longrightarrow> (\<forall>p \<in> set (slot_ptrs cfg s b i). leaf_zero cfg s' p))"
proof (induction "PMAP_SEGTABSIZE cfg - i" arbitrary: i va s)
  case 0
  then have i: "PMAP_SEGTABSIZE cfg \<le> i"
    by simp
  then have "release_loop cfg func flags b i va vinc (pmap, s) = Some (Inr (pmap, s))"
    by (subst release_loop.simps) simp
  moreover have "seg_heap s = (seg_heap s)(b := (\<lambda>j. if i \<le> j \<and> j < PMAP_SEGTABSIZE cfg then 0
                                          else seg_heap s b j))"
    using i by (auto simp: fun_eq_iff)
  ultimately show ?case
    using i by (auto simp: slot_ptrs_end pages_given_refl)
next
  case (Suc n)
  let ?N = "PMAP_SEGTABSIZE cfg"
  from Suc.hyps(2) have i: "i < ?N"
    by simp
  have al: "seg_heap s b i AND PAGE_MASK cfg = 0"
    using Suc.prems(1) i by simp
  have here: "seg_heap s b i \<noteq> 0 \<Longrightarrow> seg_heap s b i \<in> set (slot_ptrs cfg s b i)"
    using i by (simp add: slot_ptrs_step)
  have dz: "DEBUG cfg \<longrightarrow> seg_heap s b i \<noteq> 0 \<longrightarrow> leaf_zero cfg s (seg_heap s b i)"
    using Suc.prems(2) here by blast
  from release_leaf_step [OF al dz cbz, of flags va vinc pmap] obtain s1 where
    r1: "release_leaf cfg func flags b i va vinc (pmap, s) = Inr (pmap, s1)"
    and h1: "seg_heap s1 = (seg_heap s)(b := (seg_heap s b)(i := 0))"
    and f1: "free_segtab s1 = free_segtab s"
    and p1: "pages_given cfg (if seg_heap s b i \<noteq> 0 then [seg_heap s b i] else []) s s1"
    and z1: "\<forall>p. leaf_zero cfg s p \<longrightarrow> leaf_zero cfg s1 p"
    and z1': "func \<noteq> None \<and> seg_heap s b i \<noteq> 0 \<longrightarrow> leaf_zero cfg s1 (seg_heap s b i)"
    by blast
  have sl: "slot_ptrs cfg s1 b (Suc i) = slot_ptrs cfg s b (Suc i)"
    by (rule slot_ptrs_cong) (simp add: h1)
  have n: "n = ?N - Suc i"
    using Suc.hyps(2) by simp
  have al1: "\<forall>j < ?N. seg_heap s1 b j AND PAGE_MASK cfg = 0"
    using Suc.prems(1) by (simp add: h1)
  have sub: "set (slot_ptrs cfg s b (Suc i)) \<subseteq> set (slot_ptrs cfg s b i)"
    using i by (auto simp: slot_ptrs_step)
  have dz1: "DEBUG cfg \<longrightarrow> (\<forall>p \<in> set (slot_ptrs cfg s1 b (Suc i)). leaf_zero cfg s1 p)"
    using Suc.prems(2) z1 sub by (auto simp: sl)
  from Suc.hyps(1) [OF n al1 dz1, of "va + vinc"] obtain s' where
    r2: "release_loop cfg func flags b (Suc i) (va + vinc) vinc (pmap, s1) = Some (Inr (pmap, s'))"
    and h2: "seg_heap s' = (seg_heap s1)(b := (\<lambda>j. if Suc i \<le> j \<and> j < ?N then 0
                                          else seg_heap s1 b j))"
    and f2: "free_segtab s' = free_segtab s1"
    and p2: "pages_given cfg (slot_ptrs cfg s1 b (Suc i)) s1 s'"
    and z2: "\<forall>p. leaf_zero cfg s1 p \<longrightarrow> leaf_zero cfg s' p"
    and z2': "func \<noteq> None \<longrightarrow> (\<forall>p \<in> set (slot_ptrs cfg s1 b (Suc i)). leaf_zero cfg s' p)"
    by blast
  have c: "(LP64 cfg \<and> NBSEG cfg < vinc) = False"
    using nl by simp
  have "release_loop cfg func flags b i va vinc (pmap, s) = Some (Inr (pmap, s'))"
    using i r1 r2 by (subst release_loop.simps) (simp add: c)
  moreover have "seg_heap s' = (seg_heap s)(b := (\<lambda>j. if i \<le> j \<and> j < ?N then 0
                                          else seg_heap s b j))"
    using i by (auto simp: h2 h1 fun_eq_iff)
  moreover have "pages_given cfg (slot_ptrs cfg s b i) s s'"
    using pages_given_trans [OF p1 p2] i by (simp add: sl slot_ptrs_step)
  moreover have "func \<noteq> None \<longrightarrow> (\<forall>p \<in> set (slot_ptrs cfg s b i). leaf_zero cfg s' p)"
    using z1' z2 z2' i by (auto simp: sl slot_ptrs_step split: if_splits)
  ultimately show ?case
    using f1 f2 z1 z2 by auto
qed

text \<open>The address increments of the two levels.\<close>

lemma release_start_NBSEG:
  fixes cfg :: "'a::len config"
  assumes ok: "config_ok cfg"
  shows "release_start cfg va (NBSEG cfg) = seg_index cfg va"
  by (simp add: release_start_def seg_index_def NBSEG_eq [OF ok] drop_bit_eq_div)

lemma NBXSEG_eq:
  fixes cfg :: "'a::len config"
  assumes ok: "config_ok cfg" and lp: "LP64 cfg"
  shows "NBXSEG cfg = 2 ^ XSEGSHIFT cfg"
proof -
  have "SEGSHIFT cfg + (XSEGSHIFT cfg - SEGSHIFT cfg) = XSEGSHIFT cfg"
    using config_ok_LP64(1) [OF ok lp] by simp
  then show ?thesis
    by (simp add: NBXSEG_def NBSEG_eq [OF ok] config_ok_LP64(2) [OF ok lp] flip: power_add)
qed

lemma XSEGSHIFT_lt:
  fixes cfg :: "'a::len config"
  assumes ok: "config_ok cfg" and lp: "LP64 cfg"
  shows "XSEGSHIFT cfg < LENGTH('a)"
  using config_ok_LP64(1,4) [OF ok lp] by simp

lemma NBSEG_less_NBXSEG:
  fixes cfg :: "'a::len config"
  assumes ok: "config_ok cfg" and lp: "LP64 cfg"
  shows "NBSEG cfg < NBXSEG cfg"
proof -
  have "unat (NBSEG cfg) < unat (NBXSEG cfg)"
    using config_ok_LP64(1) [OF ok lp]
    by (simp add: unat_NBSEG [OF ok] NBXSEG_eq [OF ok lp] unat_2p [OF XSEGSHIFT_lt [OF ok lp]])
  then show ?thesis
    by (simp add: word_less_nat_alt)
qed

lemma NBXSEG_div_NSEGPG:
  fixes cfg :: "'a::len config"
  assumes ok: "config_ok cfg" and lp: "LP64 cfg"
  shows "NBXSEG cfg div of_nat (NSEGPG cfg) = NBSEG cfg"
proof -
  let ?k = "XSEGSHIFT cfg - SEGSHIFT cfg"
  note l = config_ok_LP64 [OF ok lp]
  have n: "(of_nat (NSEGPG cfg) :: 'a word) = 2 ^ ?k"
    by (simp add: l(2,3))
  have "NBXSEG cfg div of_nat (NSEGPG cfg) = drop_bit ?k (2 ^ XSEGSHIFT cfg :: 'a word)"
    by (simp only: n NBXSEG_eq [OF ok lp] drop_bit_eq_div)
  also have "\<dots> = 2 ^ SEGSHIFT cfg"
  proof -
    have "unat (drop_bit ?k (2 ^ XSEGSHIFT cfg :: 'a word)) = 2 ^ XSEGSHIFT cfg div 2 ^ ?k"
      by (simp add: unat_drop_bit_eq drop_bit_nat_def unat_2p [OF XSEGSHIFT_lt [OF ok lp]])
    also have "\<dots> = 2 ^ (XSEGSHIFT cfg - ?k)"
      by (simp add: power_diff)
    also have "XSEGSHIFT cfg - ?k = SEGSHIFT cfg"
      using l(1) by simp
    finally have "unat (drop_bit ?k (2 ^ XSEGSHIFT cfg :: 'a word)) = unat (2 ^ SEGSHIFT cfg :: 'a word)"
      by (simp add: unat_2p [OF config_ok_SEGSHIFT_lt [OF ok]])
    then show ?thesis
      by (simp only: word_unat_eq_iff)
  qed
  finally show ?thesis
    by (simp add: NBSEG_eq [OF ok])
qed

lemma take_bit_plus_exp:
  fixes x :: "'a::len word"
  assumes n: "n < LENGTH('a)"
  shows "take_bit n (x + 2 ^ n) = take_bit n x"
proof -
  have "unat (take_bit n (x + 2 ^ n)) = take_bit n (unat (x + 2 ^ n))"
    by (simp add: unsigned_take_bit_eq)
  also have "unat (x + 2 ^ n) = take_bit LENGTH('a) (unat x + 2 ^ n)"
    using n by (simp add: unat_word_ariths(1) take_bit_eq_mod unat_2p)
  also have "take_bit n (take_bit LENGTH('a) (unat x + 2 ^ n)) = take_bit n (unat x + 2 ^ n)"
    using n by (simp add: min_def)
  also have "\<dots> = take_bit n (take_bit n (unat x) + take_bit n (2 ^ n :: nat))"
    by (rule take_bit_add [symmetric])
  also have "\<dots> = take_bit n (unat x)"
    by (simp add: take_bit_of_exp)
  also have "\<dots> = unat (take_bit n x)"
    by (simp add: unsigned_take_bit_eq)
  finally show ?thesis
    by (simp only: word_unat_eq_iff)
qed

lemma seg_index_plus_NBXSEG:
  fixes cfg :: "'a::len config"
  assumes ok: "config_ok cfg" and lp: "LP64 cfg"
  shows "seg_index cfg (va + NBXSEG cfg) = seg_index cfg va"
proof -
  let ?k = "XSEGSHIFT cfg - SEGSHIFT cfg"
  note l = config_ok_LP64 [OF ok lp]
  have sx: "SEGSHIFT cfg + ?k = XSEGSHIFT cfg"
    using l(1) by simp
  have f: "take_bit ?k (drop_bit (SEGSHIFT cfg) x) = drop_bit (SEGSHIFT cfg) (take_bit (XSEGSHIFT cfg) x)"
    for x :: "'a word"
    by (simp add: drop_bit_take_bit sx add.commute)
  have "take_bit (XSEGSHIFT cfg) (va + 2 ^ XSEGSHIFT cfg) = take_bit (XSEGSHIFT cfg) va"
    using XSEGSHIFT_lt [OF ok lp] by (rule take_bit_plus_exp)
  then have "take_bit ?k (drop_bit (SEGSHIFT cfg) (va + NBXSEG cfg)) = take_bit ?k (drop_bit (SEGSHIFT cfg) va)"
    by (simp only: f NBXSEG_eq [OF ok lp])
  then show ?thesis
    by (simp only: seg_index_def l(2) and_pow2_take_bit)
qed

lemma minaddr_start:
  fixes cfg :: "'a::len config"
  assumes ok: "config_ok cfg" and m: "va < NBSEG cfg"
  shows "seg_index cfg va = 0" and "LP64 cfg \<Longrightarrow> release_start cfg va (NBXSEG cfg) = 0"
proof -
  have lt: "unat va < 2 ^ SEGSHIFT cfg"
    using m by (simp add: word_less_nat_alt unat_NBSEG [OF ok])
  then have "drop_bit (SEGSHIFT cfg) va = 0"
    by (rule drop_bit_eq_0_if_less)
  then show "seg_index cfg va = 0"
    by (simp add: seg_index_def)
  assume lp: "LP64 cfg"
  have "unat va < 2 ^ XSEGSHIFT cfg"
    using lt config_ok_LP64(1) [OF ok lp]
    by (meson less_trans one_less_numeral_iff power_strict_increasing semiring_norm(76))
  then have "drop_bit (XSEGSHIFT cfg) va = 0"
    by (rule drop_bit_eq_0_if_less)
  then show "release_start cfg va (NBXSEG cfg) = 0"
    by (simp add: release_start_def NBXSEG_eq [OF ok lp] flip: drop_bit_eq_div)
qed

text \<open>The recursive call on a segtab below the root, and the code after its loop.\<close>

lemma release_child:
  fixes cfg :: "'a::len config"
  assumes ok: "config_ok cfg" and lp: "LP64 cfg"
    and cbz: "\<forall>cb. func = Some cb \<longrightarrow> zeroing cfg cb"
    and c: "c \<noteq> r" and st: "seg_index cfg va = 0"
    and al: "\<forall>j < PMAP_SEGTABSIZE cfg. seg_heap s c j AND PAGE_MASK cfg = 0"
    and dz: "DEBUG cfg \<longrightarrow> (\<forall>p \<in> set (slot_ptrs cfg s c 0). leaf_zero cfg s p)"
  shows "\<exists>s1 s2.
    release_loop cfg func flags c (release_start cfg va (NBXSEG cfg div of_nat (NSEGPG cfg))) va
      (NBXSEG cfg div of_nat (NSEGPG cfg)) (pmap, s) = Some (Inr (pmap, s1)) \<and>
    release_finish cfg (SegSlotRef r i) c True (pmap, s1) = Inr (pmap, s2) \<and>
    seg_heap s2 = (seg_heap s)
      (c := (\<lambda>j. if j < PMAP_SEGTABSIZE cfg then 0 else seg_heap s c j)(0 := free_segtab s),
       r := (seg_heap s r)(i := 0)) \<and>
    free_segtab s2 = c \<and>
    pages_given cfg (slot_ptrs cfg s c 0) s s2 \<and>
    (\<forall>p. leaf_zero cfg s p \<longrightarrow> leaf_zero cfg s2 p) \<and>
    (func \<noteq> None \<longrightarrow> (\<forall>p \<in> set (slot_ptrs cfg s c 0). leaf_zero cfg s2 p))"
proof -
  let ?N = "PMAP_SEGTABSIZE cfg"
  have v: "NBXSEG cfg div of_nat (NSEGPG cfg) = NBSEG cfg"
    using ok lp by (rule NBXSEG_div_NSEGPG)
  have start: "release_start cfg va (NBSEG cfg) = 0"
    using st by (simp add: release_start_NBSEG [OF ok])
  have nl: "\<not> (LP64 cfg \<and> NBSEG cfg < NBSEG cfg)"
    by simp
  from release_loop_leaves [OF nl cbz al dz, of flags va pmap] obtain s1 where
    r1: "release_loop cfg func flags c 0 va (NBSEG cfg) (pmap, s) = Some (Inr (pmap, s1))"
    and h1: "seg_heap s1 = (seg_heap s)(c := (\<lambda>j. if 0 \<le> j \<and> j < ?N then 0 else seg_heap s c j))"
    and f1: "free_segtab s1 = free_segtab s"
    and p1: "pages_given cfg (slot_ptrs cfg s c 0) s s1"
    and z1: "\<forall>p. leaf_zero cfg s p \<longrightarrow> leaf_zero cfg s1 p"
    and z1': "func \<noteq> None \<longrightarrow> (\<forall>p \<in> set (slot_ptrs cfg s c 0). leaf_zero cfg s1 p)"
    by blast
  have "stb_empty cfg s1 c"
    by (simp add: stb_empty_iff h1)
  then have chk: "pmap_check_stb cfg s1 c = Inr ()"
    by (rule pmap_check_stb_empty)
  let ?s2 = "seg_store r i 0 (pmap_segtab_free c s1)"
  have r2: "release_finish cfg (SegSlotRef r i) c True (pmap, s1) = Inr (pmap, ?s2)"
    by (simp add: release_finish_def chk)
  have h2: "seg_heap ?s2 = (seg_heap s)
      (c := (\<lambda>j. if j < ?N then 0 else seg_heap s c j)(0 := free_segtab s),
       r := (seg_heap s r)(i := 0))"
    using c by (simp add: seg_store_def pmap_segtab_free_def h1 f1)
  have f2: "free_segtab ?s2 = c" "pte_heap ?s2 = pte_heap s1"
    "ptp_pgflist ?s2 = ptp_pgflist s1" "uvm_pages ?s2 = uvm_pages s1"
    by (simp_all add: pmap_segtab_free_def)
  have "pages_given cfg (slot_ptrs cfg s c 0) s ?s2"
    using p1 by (simp only: pages_given_def f2)
  moreover have "leaf_zero cfg ?s2 p = leaf_zero cfg s1 p" for p
    by (simp only: leaf_zero_def f2)
  ultimately show ?thesis
    using r1 r2 h2 f2(1) z1 z1' by (simp only: v start) blast
qed

text \<open>The loop of \<^verbatim>\<open>pmap_segtab_release\<close> on the root of a three-level directory.\<close>

lemma release_loop_top:
  fixes cfg :: "'a::len config"
  assumes ok: "config_ok cfg" and lp: "LP64 cfg"
    and cbz: "\<forall>cb. func = Some cb \<longrightarrow> zeroing cfg cb"
  shows "distinct (slot_ptrs cfg s r i) \<Longrightarrow> r \<notin> set (slot_ptrs cfg s r i) \<Longrightarrow>
    seg_chain (seg_heap s) (free_segtab s) fl \<Longrightarrow> r \<notin> set fl \<Longrightarrow>
    set (slot_ptrs cfg s r i) \<inter> set fl = {} \<Longrightarrow>
    (\<forall>c \<in> set (slot_ptrs cfg s r i). \<forall>j < PMAP_SEGTABSIZE cfg.
        seg_heap s c j AND PAGE_MASK cfg = 0) \<Longrightarrow>
    (DEBUG cfg \<longrightarrow> (\<forall>c \<in> set (slot_ptrs cfg s r i). \<forall>p \<in> set (slot_ptrs cfg s c 0).
        leaf_zero cfg s p)) \<Longrightarrow>
    seg_index cfg va = 0 \<Longrightarrow>
    \<exists>s'. release_loop cfg func flags r i va (NBXSEG cfg) (pmap, s) = Some (Inr (pmap, s')) \<and>
     seg_heap s' r = (\<lambda>j. if i \<le> j \<and> j < PMAP_SEGTABSIZE cfg then 0 else seg_heap s r j) \<and>
     seg_chain (seg_heap s') (free_segtab s') (rev (slot_ptrs cfg s r i) @ fl) \<and>
     pages_given cfg (concat (map (\<lambda>c. slot_ptrs cfg s c 0) (slot_ptrs cfg s r i))) s s' \<and>
     (\<forall>p. leaf_zero cfg s p \<longrightarrow> leaf_zero cfg s' p) \<and>
     (func \<noteq> None \<longrightarrow> (\<forall>c \<in> set (slot_ptrs cfg s r i). \<forall>p \<in> set (slot_ptrs cfg s c 0).
        leaf_zero cfg s' p))"
proof (induction "PMAP_SEGTABSIZE cfg - i" arbitrary: i va s fl)
  case 0
  then have i: "PMAP_SEGTABSIZE cfg \<le> i"
    by simp
  then have "release_loop cfg func flags r i va (NBXSEG cfg) (pmap, s) = Some (Inr (pmap, s))"
    by (subst release_loop.simps) simp
  moreover have "seg_heap s r = (\<lambda>j. if i \<le> j \<and> j < PMAP_SEGTABSIZE cfg then 0 else seg_heap s r j)"
    using i by (auto simp: fun_eq_iff)
  ultimately show ?case
    using i "0.prems"(3) by (auto simp: slot_ptrs_end pages_given_refl)
next
  case (Suc n)
  let ?N = "PMAP_SEGTABSIZE cfg"
  let ?c = "seg_heap s r i"
  let ?rest = "slot_ptrs cfg s r (Suc i)"
  from Suc.hyps(2) have i: "i < ?N" and n: "n = ?N - Suc i"
    by simp_all
  note step = slot_ptrs_step [OF i, of s r]
  have top: "(LP64 cfg \<and> NBSEG cfg < NBXSEG cfg) = True"
    using lp NBSEG_less_NBXSEG [OF ok lp] by simp
  have st': "seg_index cfg (va + NBXSEG cfg) = 0"
    using Suc.prems(8) by (simp add: seg_index_plus_NBXSEG [OF ok lp])
  show ?case
  proof (cases "?c = 0")
    case True
    then have e: "slot_ptrs cfg s r i = ?rest"
      by (simp add: step)
    from Suc.hyps(1) [OF n Suc.prems(1-7) [unfolded e] st'] obtain s' where
      r: "release_loop cfg func flags r (Suc i) (va + NBXSEG cfg) (NBXSEG cfg) (pmap, s) = Some (Inr (pmap, s'))"
      and h: "seg_heap s' r = (\<lambda>j. if Suc i \<le> j \<and> j < ?N then 0 else seg_heap s r j)"
      and rest: "seg_chain (seg_heap s') (free_segtab s') (rev ?rest @ fl)"
        "pages_given cfg (concat (map (\<lambda>c. slot_ptrs cfg s c 0) ?rest)) s s'"
        "\<forall>p. leaf_zero cfg s p \<longrightarrow> leaf_zero cfg s' p"
        "func \<noteq> None \<longrightarrow> (\<forall>c \<in> set ?rest. \<forall>p \<in> set (slot_ptrs cfg s c 0). leaf_zero cfg s' p)"
      by blast
    have "release_loop cfg func flags r i va (NBXSEG cfg) (pmap, s) = Some (Inr (pmap, s'))"
      using i True r by (subst release_loop.simps) (simp add: top)
    moreover have "seg_heap s' r = (\<lambda>j. if i \<le> j \<and> j < ?N then 0 else seg_heap s r j)"
    proof (rule ext)
      fix j
      show "seg_heap s' r j = (if i \<le> j \<and> j < ?N then 0 else seg_heap s r j)"
        using True by (cases "j = i") (auto simp: h)
    qed
    ultimately show ?thesis
      using rest by (simp only: e) blast
  next
    case False
    then have e: "slot_ptrs cfg s r i = ?c # ?rest"
      by (simp add: step)
    from Suc.prems(1,2,5) have c: "?c \<notin> set ?rest" "?c \<noteq> r" "?c \<notin> set fl"
      and d: "distinct ?rest" "r \<notin> set ?rest" "set ?rest \<inter> set fl = {}"
      by (auto simp: e)
    have al: "\<forall>j < ?N. seg_heap s ?c j AND PAGE_MASK cfg = 0"
      using Suc.prems(6) by (simp add: e)
    have dz: "DEBUG cfg \<longrightarrow> (\<forall>p \<in> set (slot_ptrs cfg s ?c 0). leaf_zero cfg s p)"
      using Suc.prems(7) by (simp add: e)
    from release_child [OF ok lp cbz c(2) Suc.prems(8) al dz, of flags pmap i] obtain s1 s2 where
      r1: "release_loop cfg func flags ?c (release_start cfg va (NBXSEG cfg div of_nat (NSEGPG cfg))) va
        (NBXSEG cfg div of_nat (NSEGPG cfg)) (pmap, s) = Some (Inr (pmap, s1))"
      and r2: "release_finish cfg (SegSlotRef r i) ?c True (pmap, s1) = Inr (pmap, s2)"
      and h2: "seg_heap s2 = (seg_heap s)
        (?c := (\<lambda>j. if j < ?N then 0 else seg_heap s ?c j)(0 := free_segtab s),
         r := (seg_heap s r)(i := 0))"
      and f2: "free_segtab s2 = ?c"
      and p2: "pages_given cfg (slot_ptrs cfg s ?c 0) s s2"
      and z2: "\<forall>p. leaf_zero cfg s p \<longrightarrow> leaf_zero cfg s2 p"
      and z2': "func \<noteq> None \<longrightarrow> (\<forall>p \<in> set (slot_ptrs cfg s ?c 0). leaf_zero cfg s2 p)"
      by blast
    have other: "seg_heap s2 x = seg_heap s x" if "x \<noteq> ?c" "x \<noteq> r" for x
      using that by (simp add: h2)
    have root2: "seg_heap s2 r = (seg_heap s r)(i := 0)"
      by (simp add: h2)
    have sl: "slot_ptrs cfg s2 r (Suc i) = ?rest"
      by (rule slot_ptrs_cong) (simp add: root2)
    have child: "seg_heap s2 x = seg_heap s x" if "x \<in> set ?rest" for x
      using that c(1) d(2) by (intro other) auto
    have slc: "slot_ptrs cfg s2 x 0 = slot_ptrs cfg s x 0" if "x \<in> set ?rest" for x
      by (rule slot_ptrs_cong) (simp add: child [OF that])
    have chain2: "seg_chain (seg_heap s2) (free_segtab s2) (?c # fl)"
    proof -
      have "seg_heap s2 x = seg_heap s x" if "x \<in> set fl" for x
      proof (rule other)
        show "x \<noteq> ?c" "x \<noteq> r"
          using that c(3) Suc.prems(4) by auto
      qed
      then have "\<forall>x \<in> set fl. seg_heap s2 x 0 = seg_heap s x 0"
        by simp
      from seg_chain_cong [of fl "seg_heap s2" "seg_heap s" "free_segtab s", OF this]
      have "seg_chain (seg_heap s2) (free_segtab s) fl"
        using Suc.prems(3) by simp
      moreover have "seg_heap s2 ?c 0 = free_segtab s"
        using c(2) by (simp add: h2)
      ultimately show ?thesis
        using False by (simp add: f2)
    qed
    have al2: "\<forall>x \<in> set (slot_ptrs cfg s2 r (Suc i)). \<forall>j < ?N. seg_heap s2 x j AND PAGE_MASK cfg = 0"
      using Suc.prems(6) by (simp add: sl e child)
    have dz2: "DEBUG cfg \<longrightarrow> (\<forall>x \<in> set (slot_ptrs cfg s2 r (Suc i)).
        \<forall>p \<in> set (slot_ptrs cfg s2 x 0). leaf_zero cfg s2 p)"
      using Suc.prems(7) z2 by (simp add: sl e slc)
    have pre: "distinct (slot_ptrs cfg s2 r (Suc i))" "r \<notin> set (slot_ptrs cfg s2 r (Suc i))"
      "r \<notin> set (?c # fl)" "set (slot_ptrs cfg s2 r (Suc i)) \<inter> set (?c # fl) = {}"
      using c d Suc.prems(4) by (auto simp: sl)
    from Suc.hyps(1) [OF n pre(1,2) chain2 pre(3,4) al2 dz2 st'] obtain s' where
      r3: "release_loop cfg func flags r (Suc i) (va + NBXSEG cfg) (NBXSEG cfg) (pmap, s2) = Some (Inr (pmap, s'))"
      and h3: "seg_heap s' r = (\<lambda>j. if Suc i \<le> j \<and> j < ?N then 0 else seg_heap s2 r j)"
      and ch3: "seg_chain (seg_heap s') (free_segtab s') (rev (slot_ptrs cfg s2 r (Suc i)) @ ?c # fl)"
      and p3: "pages_given cfg (concat (map (\<lambda>c. slot_ptrs cfg s2 c 0) (slot_ptrs cfg s2 r (Suc i)))) s2 s'"
      and z3: "\<forall>p. leaf_zero cfg s2 p \<longrightarrow> leaf_zero cfg s' p"
      and z3': "func \<noteq> None \<longrightarrow> (\<forall>c \<in> set (slot_ptrs cfg s2 r (Suc i)).
          \<forall>p \<in> set (slot_ptrs cfg s2 c 0). leaf_zero cfg s' p)"
      by blast
    have "release_loop cfg func flags r i va (NBXSEG cfg) (pmap, s) = Some (Inr (pmap, s'))"
      using i False r1 r2 r3 by (subst release_loop.simps) (simp add: top)
    moreover have "seg_heap s' r = (\<lambda>j. if i \<le> j \<and> j < ?N then 0 else seg_heap s r j)"
    proof (rule ext)
      fix j
      show "seg_heap s' r j = (if i \<le> j \<and> j < ?N then 0 else seg_heap s r j)"
        using i by (cases "j = i") (auto simp: h3 root2)
    qed
    moreover have "seg_chain (seg_heap s') (free_segtab s') (rev (slot_ptrs cfg s r i) @ fl)"
      using ch3 by (simp add: sl e)
    moreover have "pages_given cfg (concat (map (\<lambda>c. slot_ptrs cfg s c 0) (slot_ptrs cfg s r i))) s s'"
    proof -
      have "map (\<lambda>c. slot_ptrs cfg s2 c 0) ?rest = map (\<lambda>c. slot_ptrs cfg s c 0) ?rest"
        by (rule map_cong [OF refl]) (rule slc)
      with p3 have "pages_given cfg (concat (map (\<lambda>c. slot_ptrs cfg s c 0) ?rest)) s2 s'"
        by (simp add: sl)
      from pages_given_trans [OF p2 this] show ?thesis
        by (simp add: e)
    qed
    moreover have "\<forall>p. leaf_zero cfg s p \<longrightarrow> leaf_zero cfg s' p"
      using z2 z3 by blast
    moreover have "func \<noteq> None \<longrightarrow> (\<forall>c \<in> set (slot_ptrs cfg s r i).
        \<forall>p \<in> set (slot_ptrs cfg s c 0). leaf_zero cfg s' p)"
      using z2' z3 z3' by (auto simp: e sl slc)
    ultimately show ?thesis
      by blast
  qed
qed

text \<open>The segtabs of the bottom level and the leaves of a directory, as lists.\<close>

lemma seg_chain_unique: "seg_chain h p xs \<Longrightarrow> seg_chain h p ys \<Longrightarrow> xs = ys"
proof (induction xs arbitrary: p ys)
  case Nil
  then show ?case
    by (cases ys) auto
next
  case (Cons x xs)
  then show ?case
    by (cases ys) auto
qed

lemma slot_ptrs_product:
  "concat (map (\<lambda>c. slot_ptrs cfg s c 0) bl) =
     map (\<lambda>(b, i). seg_heap s b i)
       (filter (\<lambda>(b, i). seg_heap s b i \<noteq> 0) (List.product bl [0..<PMAP_SEGTABSIZE cfg]))"
  by (induction bl) (simp_all add: slot_ptrs_def filter_map comp_def)

lemma leaves_list:
  assumes d: "distinct bl" and b: "set bl = bottoms cfg pmap s"
    and inj: "inj_on (\<lambda>(b, i). seg_heap s b i) (leaf_slots cfg pmap s)"
  shows "set (concat (map (\<lambda>c. slot_ptrs cfg s c 0) bl)) = leaves cfg pmap s"
    and "distinct (concat (map (\<lambda>c. slot_ptrs cfg s c 0) bl))"
proof -
  let ?xs = "filter (\<lambda>(b, i). seg_heap s b i \<noteq> 0) (List.product bl [0..<PMAP_SEGTABSIZE cfg])"
  have set: "set ?xs = leaf_slots cfg pmap s"
    by (auto simp: leaf_slots_def b)
  have dx: "distinct ?xs"
    using d by (intro distinct_filter distinct_product) simp_all
  show "set (concat (map (\<lambda>c. slot_ptrs cfg s c 0) bl)) = leaves cfg pmap s"
    by (simp only: slot_ptrs_product set_map set leaves_def)
  show "distinct (concat (map (\<lambda>c. slot_ptrs cfg s c 0) bl))"
    using dx inj by (simp only: slot_ptrs_product distinct_map set)
qed

lemma children_list:
  fixes cfg :: "'a::len config"
  assumes ok: "config_ok cfg" and lp: "LP64 cfg" and tree: "tree_ok cfg pmap s"
  shows "set (slot_ptrs cfg s (pm_segtab pmap) 0) = children cfg pmap s"
    and "distinct (slot_ptrs cfg s (pm_segtab pmap) 0)"
proof -
  let ?r = "seg_heap s (pm_segtab pmap)"
  have n: "NSEGPG cfg = PMAP_SEGTABSIZE cfg"
    using ok lp by (rule config_ok_LP64(3))
  show "set (slot_ptrs cfg s (pm_segtab pmap) 0) = children cfg pmap s"
    using lp by (auto simp: set_slot_ptrs children_def n)
  have e: "slot_ptrs cfg s (pm_segtab pmap) 0 =
      map ?r (filter (\<lambda>j. ?r j \<noteq> 0) [0..<PMAP_SEGTABSIZE cfg])"
    by (simp add: slot_ptrs_def filter_map comp_def)
  have s: "set (filter (\<lambda>j. ?r j \<noteq> 0) [0..<PMAP_SEGTABSIZE cfg]) =
      {i. i < NSEGPG cfg \<and> ?r i \<noteq> 0}"
    by (auto simp: n)
  have "inj_on ?r {i. i < NSEGPG cfg \<and> ?r i \<noteq> 0}"
    using tree lp by (simp add: tree_ok_def)
  then show "distinct (slot_ptrs cfg s (pm_segtab pmap) 0)"
    by (simp only: e distinct_map s) simp
qed

lemma bottom_slot_leaf:
  assumes "c \<in> bottoms cfg pmap s" "j < PMAP_SEGTABSIZE cfg" "seg_heap s c j \<noteq> 0"
  shows "seg_heap s c j \<in> leaves cfg pmap s"
proof -
  have "(c, j) \<in> leaf_slots cfg pmap s"
    using assms by (simp add: leaf_slots_def)
  then have "(\<lambda>(b, i). seg_heap s b i) (c, j) \<in> leaves cfg pmap s"
    unfolding leaves_def by (rule imageI)
  then show ?thesis
    by simp
qed

lemma bottom_slots_aligned:
  assumes tree: "tree_ok cfg pmap s" and c: "c \<in> bottoms cfg pmap s"
  shows "\<forall>j < PMAP_SEGTABSIZE cfg. seg_heap s c j AND PAGE_MASK cfg = 0"
proof (intro allI impI)
  fix j
  assume j: "j < PMAP_SEGTABSIZE cfg"
  show "seg_heap s c j AND PAGE_MASK cfg = 0"
  proof (cases "seg_heap s c j = 0")
    case True
    then show ?thesis
      by simp
  next
    case False
    from bottom_slot_leaf [OF c j False] tree show ?thesis
      by (simp add: tree_ok_def)
  qed
qed

lemma bottom_slot_ptrs_leaves:
  assumes c: "c \<in> bottoms cfg pmap s"
  shows "set (slot_ptrs cfg s c i) \<subseteq> leaves cfg pmap s"
  using bottom_slot_leaf [OF c] by (auto simp: set_slot_ptrs)

lemma bottom_list_props:
  fixes cfg :: "'a::len config"
  assumes ok: "config_ok cfg" and tree: "tree_ok cfg pmap s"
  shows "set (bottom_list cfg pmap s) = bottoms cfg pmap s" and "distinct (bottom_list cfg pmap s)"
  using children_list [OF ok _ tree] by (auto simp: bottom_list_def bottoms_def)

lemma child_list_props:
  fixes cfg :: "'a::len config"
  assumes ok: "config_ok cfg" and tree: "tree_ok cfg pmap s"
  shows "set (child_list cfg pmap s) = children cfg pmap s" and "distinct (child_list cfg pmap s)"
  using children_list [OF ok _ tree] by (auto simp: child_list_def children_def)

lemma leaf_list_props:
  fixes cfg :: "'a::len config"
  assumes ok: "config_ok cfg" and tree: "tree_ok cfg pmap s"
  shows "set (leaf_list cfg pmap s) = leaves cfg pmap s" and "distinct (leaf_list cfg pmap s)"
proof -
  have inj: "inj_on (\<lambda>(b, i). seg_heap s b i) (leaf_slots cfg pmap s)"
    using tree by (simp add: tree_ok_def)
  note b = bottom_list_props [OF ok tree]
  from leaves_list [OF b(2) b(1) inj]
  show "set (leaf_list cfg pmap s) = leaves cfg pmap s" and "distinct (leaf_list cfg pmap s)"
    by (simp_all only: leaf_list_def)
qed

text \<open>The loop of \<^verbatim>\<open>pmap_segtab_release\<close> that \<^verbatim>\<open>pmap_segtab_destroy\<close> starts on the root.\<close>

lemma release_root:
  fixes cfg :: "'a::len config"
  assumes ok: "config_ok cfg" and tree: "tree_ok cfg pmap s" and pool: "pool_sep cfg pmap s fl"
    and m: "pm_minaddr pmap < NBSEG cfg"
    and cbz: "\<forall>cb. func = Some cb \<longrightarrow> zeroing cfg cb"
    and dz: "DEBUG cfg \<longrightarrow> (\<forall>p \<in> leaves cfg pmap s. leaf_zero cfg s p)"
  shows "\<exists>s1. release_loop cfg func flags (pm_segtab pmap)
        (release_start cfg (pm_minaddr pmap) (if LP64 cfg then NBXSEG cfg else NBSEG cfg))
        (pm_minaddr pmap) (if LP64 cfg then NBXSEG cfg else NBSEG cfg) (pmap, s)
          = Some (Inr (pmap, s1)) \<and>
     (\<forall>j < PMAP_SEGTABSIZE cfg. seg_heap s1 (pm_segtab pmap) j = 0) \<and>
     seg_chain (seg_heap s1) (free_segtab s1) (rev (child_list cfg pmap s) @ fl) \<and>
     pages_given cfg (leaf_list cfg pmap s) s s1 \<and>
     (func \<noteq> None \<longrightarrow> (\<forall>p \<in> leaves cfg pmap s. leaf_zero cfg s1 p))"
proof (cases "LP64 cfg")
  case False
  let ?r = "pm_segtab pmap"
  have rb: "?r \<in> bottoms cfg pmap s"
    using False by (simp add: bottoms_def)
  have nl: "\<not> (LP64 cfg \<and> NBSEG cfg < NBSEG cfg)"
    by simp
  have al: "\<forall>j < PMAP_SEGTABSIZE cfg. seg_heap s ?r j AND PAGE_MASK cfg = 0"
    using tree rb by (rule bottom_slots_aligned)
  have dz': "DEBUG cfg \<longrightarrow> (\<forall>p \<in> set (slot_ptrs cfg s ?r 0). leaf_zero cfg s p)"
    using dz bottom_slot_ptrs_leaves [OF rb, of 0] by auto
  have start: "release_start cfg (pm_minaddr pmap) (NBSEG cfg) = 0"
    using minaddr_start(1) [OF ok m] by (simp add: release_start_NBSEG [OF ok])
  have ll: "leaf_list cfg pmap s = slot_ptrs cfg s ?r 0"
    using False by (simp add: leaf_list_def bottom_list_def)
  from release_loop_leaves [OF nl cbz al dz', of flags "pm_minaddr pmap" pmap] obtain s1 where
    r1: "release_loop cfg func flags ?r 0 (pm_minaddr pmap) (NBSEG cfg) (pmap, s) = Some (Inr (pmap, s1))"
    and h1: "seg_heap s1 = (seg_heap s)(?r := (\<lambda>j. if 0 \<le> j \<and> j < PMAP_SEGTABSIZE cfg then 0
        else seg_heap s ?r j))"
    and f1: "free_segtab s1 = free_segtab s"
    and p1: "pages_given cfg (slot_ptrs cfg s ?r 0) s s1"
    and z1': "func \<noteq> None \<longrightarrow> (\<forall>p \<in> set (slot_ptrs cfg s ?r 0). leaf_zero cfg s1 p)"
    by blast
  have "?r \<notin> set fl"
    using pool by (auto simp: pool_sep_def live_segtabs_def)
  then have "\<forall>x \<in> set fl. seg_heap s1 x 0 = seg_heap s x 0"
    by (auto simp: h1)
  from seg_chain_cong [of fl "seg_heap s1" "seg_heap s" "free_segtab s", OF this]
  have "seg_chain (seg_heap s1) (free_segtab s1) fl"
    using pool by (simp add: pool_sep_def f1)
  moreover have "set (slot_ptrs cfg s ?r 0) = leaves cfg pmap s"
    using leaf_list_props(1) [OF ok tree] by (simp only: ll)
  ultimately show ?thesis
    using False r1 p1 z1' by (simp add: start ll child_list_def h1)
next
  case True
  let ?r = "pm_segtab pmap"
  let ?cs = "slot_ptrs cfg s ?r 0"
  note cl = children_list [OF ok True tree]
  have bt: "bottoms cfg pmap s = children cfg pmap s"
    using True by (simp add: bottoms_def)
  have rn: "?r \<notin> set ?cs"
    using tree by (simp add: cl(1) tree_ok_def)
  have chain: "seg_chain (seg_heap s) (free_segtab s) fl"
    using pool by (simp add: pool_sep_def)
  have rfl: "?r \<notin> set fl" and cfl: "set ?cs \<inter> set fl = {}"
    using pool by (auto simp: pool_sep_def live_segtabs_def cl(1))
  have al: "\<forall>c \<in> set ?cs. \<forall>j < PMAP_SEGTABSIZE cfg. seg_heap s c j AND PAGE_MASK cfg = 0"
    using bottom_slots_aligned [OF tree] by (simp add: cl(1) bt)
  have dz': "DEBUG cfg \<longrightarrow> (\<forall>c \<in> set ?cs. \<forall>p \<in> set (slot_ptrs cfg s c 0). leaf_zero cfg s p)"
    using dz bottom_slot_ptrs_leaves [where cfg = cfg and pmap = pmap and s = s and i = 0]
    by (auto simp: cl(1) bt)
  have start: "release_start cfg (pm_minaddr pmap) (NBXSEG cfg) = 0"
    using minaddr_start(2) [OF ok m True] .
  have ll: "leaf_list cfg pmap s = concat (map (\<lambda>c. slot_ptrs cfg s c 0) ?cs)"
    using True by (simp add: leaf_list_def bottom_list_def)
  from release_loop_top [OF ok True cbz cl(2) rn chain rfl cfl al dz' minaddr_start(1) [OF ok m],
      of flags pmap]
  obtain s1 where
    r1: "release_loop cfg func flags ?r 0 (pm_minaddr pmap) (NBXSEG cfg) (pmap, s) = Some (Inr (pmap, s1))"
    and h1: "seg_heap s1 ?r = (\<lambda>j. if 0 \<le> j \<and> j < PMAP_SEGTABSIZE cfg then 0 else seg_heap s ?r j)"
    and c1: "seg_chain (seg_heap s1) (free_segtab s1) (rev ?cs @ fl)"
    and p1: "pages_given cfg (concat (map (\<lambda>c. slot_ptrs cfg s c 0) ?cs)) s s1"
    and z1': "func \<noteq> None \<longrightarrow> (\<forall>c \<in> set ?cs. \<forall>p \<in> set (slot_ptrs cfg s c 0). leaf_zero cfg s1 p)"
    by blast
  have "func \<noteq> None \<longrightarrow> (\<forall>p \<in> leaves cfg pmap s. leaf_zero cfg s1 p)"
    using z1' leaf_list_props(1) [OF ok tree] by (auto simp: ll)
  then show ?thesis
    using True r1 c1 p1 by (simp add: start ll child_list_def h1)
qed

lemma zeroing_zero_callback: "zeroing cfg (zero_callback cfg)"
  by (simp add: zeroing_def zero_callback_def)

lemma pmap_segtab_destroy_result:
  fixes cfg :: "'a::len config"
  assumes ok: "config_ok cfg" and k: "kernel_ok cfg pmap s"
    and ch: "seg_chain (seg_heap s) (free_segtab s) fl"
    and m: "pm_minaddr pmap < NBSEG cfg"
    and cbz: "\<forall>cb. func = Some cb \<longrightarrow> zeroing cfg cb"
    and dz: "DEBUG cfg \<longrightarrow> (\<forall>p \<in> leaves cfg pmap s. leaf_zero cfg s p)"
  shows "\<exists>s'. pmap_segtab_destroy cfg func flags (pmap, s)
          = Some (Inr (if func = None then pmap\<lparr>pm_segtab := 0\<rparr> else pmap, s')) \<and>
     pages_given cfg (leaf_list cfg pmap s) s s' \<and>
     seg_chain (seg_heap s') (free_segtab s')
       ((if func = None then [pm_segtab pmap] else []) @ rev (child_list cfg pmap s) @ fl) \<and>
     (func \<noteq> None \<longrightarrow>
        (\<forall>j < PMAP_SEGTABSIZE cfg. seg_heap s' (pm_segtab pmap) j = 0) \<and>
        (\<forall>p \<in> leaves cfg pmap s. leaf_zero cfg s' p))"
proof -
  let ?r = "pm_segtab pmap"
  let ?vinc = "if LP64 cfg then NBXSEG cfg else NBSEG cfg"
  note tree = kernel_okD(1) [OF k]
  from kernel_okD(2) [OF k] obtain fl0 where "pool_sep cfg pmap s fl0"
    by blast
  moreover from this have "fl0 = fl"
    using ch by (auto simp: pool_sep_def intro: seg_chain_unique)
  ultimately have pool: "pool_sep cfg pmap s fl"
    by simp
  have rnz: "?r \<noteq> 0"
    using tree by (simp add: tree_ok_def)
  from release_root [OF ok tree pool m cbz dz, of flags] obtain s1 where
    r1: "release_loop cfg func flags ?r (release_start cfg (pm_minaddr pmap) ?vinc)
        (pm_minaddr pmap) ?vinc (pmap, s) = Some (Inr (pmap, s1))"
    and e1: "\<forall>j < PMAP_SEGTABSIZE cfg. seg_heap s1 ?r j = 0"
    and c1: "seg_chain (seg_heap s1) (free_segtab s1) (rev (child_list cfg pmap s) @ fl)"
    and p1: "pages_given cfg (leaf_list cfg pmap s) s s1"
    and z1: "func \<noteq> None \<longrightarrow> (\<forall>p \<in> leaves cfg pmap s. leaf_zero cfg s1 p)"
    by blast
  have d: "pmap_segtab_destroy cfg func flags (pmap, s)
      = Some (release_finish cfg PmSegtabRef ?r (func = None) (pmap, s1))"
    using rnz r1 by (simp add: pmap_segtab_destroy_def pmap_segtab_release_def)
  show ?thesis
  proof (cases "func = None")
    case False
    then have "release_finish cfg PmSegtabRef ?r (func = None) (pmap, s1) = Inr (pmap, s1)"
      by (auto simp: release_finish_def)
    with False d e1 c1 p1 z1 show ?thesis
      by auto
  next
    case True
    let ?s' = "pmap_segtab_free ?r s1"
    have "stb_empty cfg s1 ?r"
      using e1 by (simp add: stb_empty_iff)
    then have "pmap_check_stb cfg s1 ?r = Inr ()"
      by (rule pmap_check_stb_empty)
    with True have f: "release_finish cfg PmSegtabRef ?r (func = None) (pmap, s1)
        = Inr (pmap\<lparr>pm_segtab := 0\<rparr>, ?s')"
      by (simp add: release_finish_def)
    have "?r \<notin> set (rev (child_list cfg pmap s) @ fl)"
      using tree pool child_list_props(1) [OF ok tree]
      by (auto simp: tree_ok_def pool_sep_def live_segtabs_def)
    then have "\<forall>x \<in> set (rev (child_list cfg pmap s) @ fl). seg_heap ?s' x 0 = seg_heap s1 x 0"
      by (auto simp: pmap_segtab_free_def)
    from seg_chain_cong [of "rev (child_list cfg pmap s) @ fl" "seg_heap ?s'" "seg_heap s1"
        "free_segtab s1", OF this] c1
    have "seg_chain (seg_heap ?s') (free_segtab s1) (rev (child_list cfg pmap s) @ fl)"
      by simp
    moreover have "free_segtab ?s' = ?r" "seg_heap ?s' ?r 0 = free_segtab s1"
      by (simp_all add: pmap_segtab_free_def)
    ultimately have "seg_chain (seg_heap ?s') (free_segtab ?s')
        ([?r] @ rev (child_list cfg pmap s) @ fl)"
      using rnz by simp
    moreover have "pages_given cfg (leaf_list cfg pmap s) s ?s'"
      using p1 by (simp add: pages_given_def pmap_segtab_free_def)
    ultimately show ?thesis
      using True d f by auto
  qed
qed

lemmas destroy_eval =
  pmap_segtab_destroy_def pmap_segtab_release_def release_loop.simps release_start_def
  release_finish_def release_leaf_def pmap_check_ptes_def pmap_check_stb_def pmap_segtab_free_def
  invoke_callback_def zero_callback_def seg_store_def cfg3_def root16_def tree_state16_def
  boot_state_def NBXSEG_def NBSEG_def NBPG_def PAGE_MASK_def PMAP_UNMAP_POOLPAGE_def
  PHYS_TO_VM_PAGE_def Let_def destroy_view_def upt_rec freelist_prefix.simps

lemma tree_state16_ok: "kernel_ok cfg3 root16 tree_state16"
proof -
  have ch: "children cfg3 root16 tree_state16 = {0x108}"
    by (auto simp: children_def cfg3_def root16_def tree_state16_def boot_state_def)
  have bt: "bottoms cfg3 root16 tree_state16 = {0x108}"
    by (simp add: bottoms_def ch) (simp add: cfg3_def)
  have ls: "leaf_slots cfg3 root16 tree_state16 = {(0x108, 3)}"
    by (auto simp: leaf_slots_def bt) (auto simp: cfg3_def tree_state16_def boot_state_def split: if_splits)
  have lv: "leaves cfg3 root16 tree_state16 = {0x200}"
    by (simp add: leaves_def ls) (simp add: tree_state16_def boot_state_def)
  have "inj_on (seg_heap tree_state16 (pm_segtab root16))
     {i. i < NSEGPG cfg3 \<and> seg_heap tree_state16 (pm_segtab root16) i \<noteq> 0}"
    by (auto simp: inj_on_def root16_def tree_state16_def boot_state_def split: if_splits)
  then have "tree_ok cfg3 root16 tree_state16"
    by (simp add: tree_ok_def ch ls lv) (simp add: root16_def PAGE_MASK_def NBPG_def cfg3_def)
  moreover have "pool_sep cfg3 root16 tree_state16 []"
    by (simp add: pool_sep_def free_page_segtabs_def tree_state16_def boot_state_def)
  moreover have "pages_sep cfg3 root16 tree_state16"
    by (simp add: pages_sep_def tree_state16_def boot_state_def)
  ultimately show ?thesis
    unfolding kernel_ok_def by blast
qed

lemma tree_state16_lists:
  "child_list cfg3 root16 tree_state16 = [0x108]" "leaf_list cfg3 root16 tree_state16 = [0x200]"
  by (simp_all add: child_list_def leaf_list_def bottom_list_def slot_ptrs_def cfg3_def root16_def
      tree_state16_def boot_state_def upt_rec)


section \<open>Lookup is a pure walk\<close>

text \<open>
  Claim C7.  \<^verbatim>\<open>pmap_pte_lookup\<close> takes the state as an argument and yields a pointer only,
  so it modifies nothing.  It returns null when the slot of the root selected by
  \<^verbatim>\<open>(va >> XSEGSHIFT) & (NSEGPG - 1)\<close> is null (three-level layout), and when the
  bottom-level slot selected by \<^verbatim>\<open>(va >> SEGSHIFT) & (PMAP_SEGTABSIZE - 1)\<close> is null;
  otherwise it returns the address of element \<^verbatim>\<open>(va >> PGSHIFT) & (NPTEPG - 1)\<close> of the
  PTE array found in that slot.
\<close>

theorem pte_lookup_walk:
  fixes cfg :: "'a::len config"
  defines "bottom pmap s va \<equiv>
     (if LP64 cfg
      then seg_heap s (seg_heap s (pm_segtab pmap)
             (unat (drop_bit (XSEGSHIFT cfg) va AND (of_nat (NSEGPG cfg) - 1))))
             (unat (drop_bit (SEGSHIFT cfg) va AND (of_nat (PMAP_SEGTABSIZE cfg) - 1)))
      else seg_heap s (pm_segtab pmap)
             (unat (drop_bit (SEGSHIFT cfg) va AND (of_nat (PMAP_SEGTABSIZE cfg) - 1))))"
  shows "(LP64 cfg \<and> seg_heap s (pm_segtab pmap)
             (unat (drop_bit (XSEGSHIFT cfg) va AND (of_nat (NSEGPG cfg) - 1))) = 0
          \<longrightarrow> pmap_pte_lookup cfg pmap s va = 0) \<and>
         (bottom pmap s va = 0 \<longrightarrow> pmap_pte_lookup cfg pmap s va = 0) \<and>
         (\<not> (LP64 cfg \<and> seg_heap s (pm_segtab pmap)
             (unat (drop_bit (XSEGSHIFT cfg) va AND (of_nat (NSEGPG cfg) - 1))) = 0) \<and>
          bottom pmap s va \<noteq> 0
          \<longrightarrow> pmap_pte_lookup cfg pmap s va =
              bottom pmap s va
              + of_nat (sizeof_pte cfg) * (drop_bit (PGSHIFT cfg) va AND (of_nat (NPTEPG cfg) - 1)))"
  by (simp add: bottom_def pmap_pte_lookup_def pmap_segmap_def Let_def xseg_index_def
      seg_index_def pte_index_def)

theorem pte_lookup_walk_witness:
  "pmap_pte_lookup spec_cfg root32 leaf_state32 0x100000 = 0 \<and>
   pmap_pte_lookup spec_cfg root32 leaf_state32 0x403000 = 0x80020018 \<and>
   pmap_pte_lookup cfg3 root16 tree_state16 0x2c0 = 0 \<and>
   pmap_pte_lookup cfg3 root16 tree_state16 0x140 = 0 \<and>
   pmap_pte_lookup cfg3 root16 tree_state16 0x1e5 = 0x208"
  using pte_lookup_walk [of spec_cfg leaf_state32 root32 "0x100000"]
    pte_lookup_walk [of spec_cfg leaf_state32 root32 "0x403000"]
    pte_lookup_walk [of cfg3 tree_state16 root16 "0x2c0"]
    pte_lookup_walk [of cfg3 tree_state16 root16 "0x140"]
    pte_lookup_walk [of cfg3 tree_state16 root16 "0x1e5"]
  by (simp add: spec_cfg_def cfg3_def root32_def root16_def leaf_state32_def tree_state16_def
      boot_state_def)

section \<open>Teardown of a pmap without a root\<close>

text \<open>
  Claim C10.  When the root pointer \<^verbatim>\<open>pm_segtab\<close> of the pmap is null,
  \<^verbatim>\<open>pmap_segtab_destroy\<close> returns at once: the pmap and the whole state, with the
  directory-node pool, the leaf-page cache and the record of callback invocations, are
  as before.
\<close>

theorem segtab_destroy_null_root:
  "pm_segtab pmap = 0 \<Longrightarrow>
   pmap_segtab_destroy cfg func flags (pmap, s) = Some (Inr (pmap, s))"
  by (simp add: pmap_segtab_destroy_def)

theorem segtab_destroy_null_root_witness:
  "pm_segtab \<lparr>pm_segtab = 0, pm_minaddr = (0x1000 :: 32 word)\<rparr> = 0 \<and>
   pmap_segtab_destroy spec_cfg (Some (\<lambda>pm va vb pte fl h. h(pte := (\<lambda>_. 0)))) 0
     (\<lparr>pm_segtab = 0, pm_minaddr = 0x1000\<rparr>, boot_state [0x80010000])
   = Some (Inr (\<lparr>pm_segtab = 0, pm_minaddr = 0x1000\<rparr>, boot_state [0x80010000]))"
  using segtab_destroy_null_root [of "\<lparr>pm_segtab = 0, pm_minaddr = (0x1000 :: 32 word)\<rparr>"
      spec_cfg "Some (\<lambda>pm va vb pte fl h. h(pte := (\<lambda>_. 0)))" 0 "boot_state [0x80010000]"]
  by simp

section \<open>The pointer handed to the callback of the range walker\<close>

text \<open>
  Claim C3 says that every invocation of the callback by \<^verbatim>\<open>pmap_pte_process\<close> receives the
  base of the leaf PTE array, also for a first sub-range that does not start at a leaf
  boundary.  The source passes \<^verbatim>\<open>ptep = pmap_pte_lookup(pmap, sva)\<close>, the address of the
  entry for the start of the sub-range.  On the directory with a leaf at \<^verbatim>\<open>0x80020000\<close> for
  the addresses from \<^verbatim>\<open>0x400000\<close>, the walk of \<^verbatim>\<open>[0x401000, 0x402000)\<close> calls the callback
  once, with the pointer \<^verbatim>\<open>0x80020008\<close>, which is entry 1 of the array and not its base.
\<close>

theorem pte_process_callback_pte_counterexample:
  "map_option cb_log
     (pmap_pte_process spec_cfg root32 0x401000 0x402000 nop_callback 0 leaf_state32)
     = Some [(0x401000, 0x402000, 0x80020008, 0)] \<and>
   pmap_segmap spec_cfg root32 leaf_state32 0x401000 = 0x80020000"
  by (simp add: pmap_pte_process.simps pmap_pte_lookup_def pmap_segmap_def spec_cfg_def root32_def leaf_state32_def boot_state_def
      pmap_trunc_seg_def NBSEG_def NBPG_def invoke_callback_def nop_callback_def seg_index_def pte_index_def)

text \<open>
  Claim C3, amended.  For a page-aligned \<open>sva\<close>, every invocation of the callback by
  \<^verbatim>\<open>pmap_pte_process\<close> is for a populated leaf and receives the pointer that
  \<^verbatim>\<open>pmap_pte_lookup\<close> returns for the start \<open>va\<close> of the sub-range: the address of element
  \<^verbatim>\<open>(va >> PGSHIFT) & (NPTEPG - 1)\<close> of the leaf PTE array.  This pointer is the base of the
  array if and only if \<open>va\<close> is aligned to a leaf (\<^verbatim>\<open>NBSEG\<close>) boundary.  Every invocation
  after the first starts at a leaf boundary; the first one starts at \<open>sva\<close> or at a leaf
  boundary.  (The end of the range plays no part: the statement holds for every \<open>eva\<close>.)
\<close>

theorem pte_process_callback_pte:
  fixes cfg :: "'a::len config"
  assumes ok: "config_ok cfg" and pg: "sva AND PAGE_MASK cfg = 0"
  shows "\<exists>s' calls.
           pmap_pte_process cfg pmap sva eva callback flags s = Some s' \<and>
           cb_log s' = cb_log s @ calls \<and>
           (\<forall>c \<in> set calls. case c of (va, va_end, pte, fl) \<Rightarrow>
              pmap_segmap cfg pmap s va \<noteq> 0 \<and>
              pte = pmap_pte_lookup cfg pmap s va \<and>
              pte = pmap_segmap cfg pmap s va
                    + of_nat (sizeof_pte cfg) * (drop_bit (PGSHIFT cfg) va AND (of_nat (NPTEPG cfg) - 1)) \<and>
              (pte = pmap_segmap cfg pmap s va \<longleftrightarrow> va AND (NBSEG cfg - 1) = 0) \<and>
              (va = sva \<or> va AND (NBSEG cfg - 1) = 0)) \<and>
           (\<forall>c \<in> set (tl calls). fst c AND (NBSEG cfg - 1) = 0)"
proof -
  let ?calls = "process_calls cfg pmap s sva eva flags"
  from pmap_pte_process_log [OF ok, of pmap sva eva callback flags s]
  obtain s' where s': "pmap_pte_process cfg pmap sva eva callback flags s = Some s'"
    "cb_log s' = cb_log s @ ?calls"
    by blast
  have each: "case c of (va, va_end, pte, fl) \<Rightarrow>
              pmap_segmap cfg pmap s va \<noteq> 0 \<and>
              pte = pmap_pte_lookup cfg pmap s va \<and>
              pte = pmap_segmap cfg pmap s va
                    + of_nat (sizeof_pte cfg) * (drop_bit (PGSHIFT cfg) va AND (of_nat (NPTEPG cfg) - 1)) \<and>
              (pte = pmap_segmap cfg pmap s va \<longleftrightarrow> va AND (NBSEG cfg - 1) = 0) \<and>
              (va = sva \<or> va AND (NBSEG cfg - 1) = 0)"
    if "c \<in> set ?calls" for c
  proof -
    from that obtain va where c: "c = (va, span_end cfg eva va, pmap_pte_lookup cfg pmap s va, flags)"
      and nz: "pmap_pte_lookup cfg pmap s va \<noteq> 0"
      by (auto simp: process_calls_def)
    from nz have seg: "pmap_segmap cfg pmap s va \<noteq> 0"
      by (auto simp: pmap_pte_lookup_def Let_def)
    then have lk: "pmap_pte_lookup cfg pmap s va =
        pmap_segmap cfg pmap s va + of_nat (sizeof_pte cfg) * pte_index cfg va"
      by (simp add: pmap_pte_lookup_def Let_def)
    have start: "va = sva \<or> va AND (NBSEG cfg - 1) = 0"
      using process_calls_start [OF ok that] by (simp add: c)
    then have "va AND PAGE_MASK cfg = 0"
      using pg seg_aligned_page_aligned [OF ok] by auto
    then have idx: "pte_index cfg va = 0 \<longleftrightarrow> va AND (NBSEG cfg - 1) = 0"
      by (rule pte_index_zero_iff [OF ok])
    have "pmap_pte_lookup cfg pmap s va = pmap_segmap cfg pmap s va \<longleftrightarrow>
          (of_nat (sizeof_pte cfg) * pte_index cfg va :: 'a word) = 0"
      by (simp add: lk)
    then have base: "pmap_pte_lookup cfg pmap s va = pmap_segmap cfg pmap s va \<longleftrightarrow>
          va AND (NBSEG cfg - 1) = 0"
      by (simp only: pte_offset_zero_iff [OF ok] idx)
    from seg lk base start show ?thesis
      by (simp add: c pte_index_def)
  qed
  from s' each process_calls_tl_aligned [OF ok] show ?thesis
    by blast
qed

theorem pte_process_callback_pte_witness:
  "config_ok spec_cfg \<and> (0x401000 :: 32 word) AND PAGE_MASK spec_cfg = 0 \<and>
   (\<exists>s'. pmap_pte_process spec_cfg root32 0x401000 0x800000 nop_callback 0 two_leaf_state32 = Some s' \<and>
      cb_log s' = [(0x401000, 0x600000, 0x80020008, 0), (0x600000, 0x800000, 0x80021000, 0)] \<and>
      (\<forall>c \<in> set (cb_log s'). case c of (va, va_end, pte, fl) \<Rightarrow>
              pmap_segmap spec_cfg root32 two_leaf_state32 va \<noteq> 0 \<and>
              pte = pmap_pte_lookup spec_cfg root32 two_leaf_state32 va \<and>
              pte = pmap_segmap spec_cfg root32 two_leaf_state32 va
                    + of_nat (sizeof_pte spec_cfg) *
                      (drop_bit (PGSHIFT spec_cfg) va AND (of_nat (NPTEPG spec_cfg) - 1)) \<and>
              (pte = pmap_segmap spec_cfg root32 two_leaf_state32 va \<longleftrightarrow>
                 va AND (NBSEG spec_cfg - 1) = 0) \<and>
              (va = 0x401000 \<or> va AND (NBSEG spec_cfg - 1) = 0)) \<and>
      (\<forall>c \<in> set (tl (cb_log s')). fst c AND (NBSEG spec_cfg - 1) = 0))"
proof -
  have pg: "(0x401000 :: 32 word) AND PAGE_MASK spec_cfg = 0"
    by (simp add: PAGE_MASK_def NBPG_def spec_cfg_def)
  from pte_process_callback_pte [OF spec_cfg_ok pg, of root32 "0x800000" nop_callback 0
      two_leaf_state32]
  obtain s' calls where s':
    "pmap_pte_process spec_cfg root32 0x401000 0x800000 nop_callback 0 two_leaf_state32 = Some s'"
    "cb_log s' = cb_log two_leaf_state32 @ calls"
    "\<forall>c \<in> set calls. case c of (va, va_end, pte, fl) \<Rightarrow>
              pmap_segmap spec_cfg root32 two_leaf_state32 va \<noteq> 0 \<and>
              pte = pmap_pte_lookup spec_cfg root32 two_leaf_state32 va \<and>
              pte = pmap_segmap spec_cfg root32 two_leaf_state32 va
                    + of_nat (sizeof_pte spec_cfg) *
                      (drop_bit (PGSHIFT spec_cfg) va AND (of_nat (NPTEPG spec_cfg) - 1)) \<and>
              (pte = pmap_segmap spec_cfg root32 two_leaf_state32 va \<longleftrightarrow>
                 va AND (NBSEG spec_cfg - 1) = 0) \<and>
              (va = 0x401000 \<or> va AND (NBSEG spec_cfg - 1) = 0)"
    "\<forall>c \<in> set (tl calls). fst c AND (NBSEG spec_cfg - 1) = 0"
    by blast
  have calls: "cb_log s' = calls"
    using s'(2) by (simp add: two_leaf_state32_def boot_state_def)
  have "cb_log s' = [(0x401000, 0x600000, 0x80020008, 0), (0x600000, 0x800000, 0x80021000, 0)]"
    using process_two_leaf_unaligned s'(1) by simp
  with s' calls spec_cfg_ok pg show ?thesis
    by blast
qed

section \<open>The invocations of the range walker\<close>

text \<open>
  Claim C6.  On a directory whose leaf pointers are page-aligned, \<^verbatim>\<open>pmap_pte_process\<close>
  returns, and the calls it adds to the record of invocations are at most
  \<^verbatim>\<open>ceil((eva - sva) / NBSEG) + 1\<close>, have non-decreasing start addresses, and for every
  segment number \<open>k\<close> exactly one of them starts in segment \<open>k\<close> when the span
  \<open>[k * NBSEG, (k + 1) * NBSEG)\<close> of the segment meets \<open>[sva, eva)\<close> and the leaf of the
  segment is populated, and none otherwise.
\<close>

theorem pte_process_invocations:
  fixes cfg :: "'a::len config"
  assumes ok: "config_ok cfg"
    and al: "\<forall>va. pmap_segmap cfg pmap s va AND PAGE_MASK cfg = 0"
  shows "\<exists>s' calls.
           pmap_pte_process cfg pmap sva eva callback flags s = Some s' \<and>
           cb_log s' = cb_log s @ calls \<and>
           length calls \<le> (unat eva - unat sva + unat (NBSEG cfg) - 1) div unat (NBSEG cfg) + 1 \<and>
           sorted (map fst calls) \<and>
           (\<forall>k. length (filter (\<lambda>c. unat (fst c) div unat (NBSEG cfg) = k) calls) =
                  (if sva < eva \<and> k * unat (NBSEG cfg) < unat eva \<and>
                      unat sva < (k + 1) * unat (NBSEG cfg) \<and>
                      pmap_segmap cfg pmap s (of_nat (k * unat (NBSEG cfg))) \<noteq> 0
                   then 1 else 0))"
proof -
  let ?N = "unat (NBSEG cfg)"
  let ?calls = "process_calls cfg pmap s sva eva flags"
  have N: "0 < ?N"
    by (simp add: unat_NBSEG [OF ok])
  from pmap_pte_process_log [OF ok, of pmap sva eva callback flags s]
  obtain s' where s': "pmap_pte_process cfg pmap sva eva callback flags s = Some s'"
    "cb_log s' = cb_log s @ ?calls"
    by blast
  have sorted: "sorted (map fst ?calls)"
    using process_calls_sorted [OF ok, of pmap s sva eva flags]
    by (rule sorted_wrt_mono_rel [rotated]) simp
  have count: "length (filter (\<lambda>c. unat (fst c) div ?N = k) ?calls) =
                  (if sva < eva \<and> k * ?N < unat eva \<and> unat sva < (k + 1) * ?N \<and>
                      pmap_segmap cfg pmap s (of_nat (k * ?N)) \<noteq> 0
                   then 1 else 0)" for k
  proof (cases "sva < eva")
    case False
    then show ?thesis
      by (simp add: process_calls_def span_starts_def)
  next
    case True
    let ?segs = "[unat sva div ?N ..< (unat eva + ?N - 1) div ?N]"
    have "length (filter (\<lambda>c. unat (fst c) div ?N = k) ?calls) =
          length (filter (\<lambda>x. x = k) (map (\<lambda>c. unat (fst c) div ?N) ?calls))"
      by (simp add: filter_map o_def)
    also have "\<dots> = length (filter (\<lambda>x. x = k) (filter (seg_populated cfg pmap s) ?segs))"
      by (simp only: process_calls_segs [OF ok True al])
    also have "\<dots> = (if k \<in> set (filter (seg_populated cfg pmap s) ?segs) then 1 else 0)"
      by (rule length_filter_eq_distinct) simp
    finally have c: "length (filter (\<lambda>c. unat (fst c) div ?N = k) ?calls) =
          (if k \<in> set ?segs \<and> seg_populated cfg pmap s k then 1 else 0)"
      by simp
    have lo: "unat sva div ?N \<le> k \<longleftrightarrow> unat sva < (k + 1) * ?N"
      using N by (simp add: div_less_iff_less_mult flip: less_Suc_eq_le)
    have hi: "k < (unat eva + ?N - 1) div ?N \<longleftrightarrow> k * ?N < unat eva"
      using N seg_ceil_gt [of ?N k "unat eva"] seg_ceil_less [of ?N k "unat eva"] by blast
    have mem: "k \<in> set ?segs \<longleftrightarrow> k * ?N < unat eva \<and> unat sva < (k + 1) * ?N"
      using lo hi by auto
    show ?thesis
      unfolding c mem using True by (simp add: seg_populated_def)
  qed
  have len: "length ?calls \<le> (unat eva - unat sva + ?N - 1) div ?N + 1"
    using ok by (rule process_calls_length)
  from s'(1) s'(2) len sorted count show ?thesis
    by (intro exI [of _ s'] exI [of _ ?calls] conjI allI)
qed

theorem pte_process_invocations_witness:
  "config_ok spec_cfg \<and>
   (\<forall>va. pmap_segmap spec_cfg root32 two_leaf_state32 va AND PAGE_MASK spec_cfg = 0) \<and>
   (\<exists>s'. pmap_pte_process spec_cfg root32 0 0x800000 nop_callback 0 two_leaf_state32 = Some s' \<and>
      cb_log s' = [(0x400000, 0x600000, 0x80020000, 0), (0x600000, 0x800000, 0x80021000, 0)] \<and>
      length (cb_log s') \<le> 5 \<and>
      sorted (map fst (cb_log s')) \<and>
      length (filter (\<lambda>c. unat (fst c) div unat (NBSEG spec_cfg) = 1) (cb_log s')) = 0 \<and>
      length (filter (\<lambda>c. unat (fst c) div unat (NBSEG spec_cfg) = 2) (cb_log s')) = 1)"
proof -
  have al: "\<forall>va. pmap_segmap spec_cfg root32 two_leaf_state32 va AND PAGE_MASK spec_cfg = 0"
    by (simp add: two_leaf_state32_aligned)
  let ?N = "unat (NBSEG spec_cfg)"
  from pte_process_invocations [OF spec_cfg_ok al, of 0 "0x800000" nop_callback 0]
  obtain s' calls where s':
    "pmap_pte_process spec_cfg root32 0 0x800000 nop_callback 0 two_leaf_state32 = Some s'"
    "cb_log s' = cb_log two_leaf_state32 @ calls"
    "length calls \<le> (unat (0x800000 :: 32 word) - unat (0 :: 32 word) + ?N - 1) div ?N + 1"
    "sorted (map fst calls)"
    "\<forall>k. length (filter (\<lambda>c. unat (fst c) div ?N = k) calls) =
                  (if (0 :: 32 word) < 0x800000 \<and> k * ?N < unat (0x800000 :: 32 word) \<and>
                      unat (0 :: 32 word) < (k + 1) * ?N \<and>
                      pmap_segmap spec_cfg root32 two_leaf_state32 (of_nat (k * ?N)) \<noteq> 0
                   then 1 else 0)"
    by blast
  have calls: "cb_log s' = calls"
    using s'(2) by (simp add: two_leaf_state32_def boot_state_def)
  have N: "?N = 2097152"
    by (simp add: NBSEG_def NBPG_def spec_cfg_def)
  have log: "cb_log s' = [(0x400000, 0x600000, 0x80020000, 0), (0x600000, 0x800000, 0x80021000, 0)]"
    using process_two_leaf_aligned s'(1) by simp
  have len: "length (cb_log s') \<le> 5"
    using s'(3) by (simp add: calls N)
  have c1: "length (filter (\<lambda>c. unat (fst c) div ?N = 1) (cb_log s')) = 0"
    using s'(5) [rule_format, of 1] by (simp add: calls N walk_eval)
  have c2: "length (filter (\<lambda>c. unat (fst c) div ?N = 2) (cb_log s')) = 1"
    using s'(5) [rule_format, of 2] by (simp add: calls N walk_eval)
  have srt: "sorted (map fst (cb_log s'))"
    using s'(4) by (simp only: calls)
  from spec_cfg_ok al s'(1) log len srt c1 c2 show ?thesis
    by blast
qed

section \<open>When the reserve engine returns null\<close>

text \<open>
  Claim C4.  \<^verbatim>\<open>pmap_pte_reserve\<close> returns null if and only if the flags contain
  \<^verbatim>\<open>PMAP_CANFAIL\<close>, the lookup finds no entry (the slow path is taken), the slow path
  reaches the allocation of the leaf page, and there both the pop from the leaf-page
  cache and the page allocator yield no page.  When the same happens without
  \<^verbatim>\<open>PMAP_CANFAIL\<close> the call panics.  (Under \<^verbatim>\<open>_LP64\<close> the slow path allocates a missing
  segtab first, and \<^verbatim>\<open>pmap_segtab_alloc\<close> waits for memory: a call that never reaches the
  allocation of the leaf page returns nothing at all.)
\<close>

theorem pte_reserve_null_iff:
  fixes cfg :: "'a::len config"
  assumes ok: "config_ok cfg"
  shows "((\<exists>s'. pmap_pte_reserve cfg pmap va flags s = Some (Inr (0, s'))) \<longleftrightarrow>
           (flags AND PMAP_CANFAIL cfg \<noteq> 0 \<and> pmap_pte_lookup cfg pmap s va = 0 \<and>
            (\<exists>stb s1. reserve_segtab cfg pmap va s = Some (Inr (stb, s1)) \<and>
               fst (ptp_cache_get cfg s1) = 0 \<and>
               fst (pmap_pte_pagealloc cfg (snd (ptp_cache_get cfg s1))) = 0))) \<and>
         (flags AND PMAP_CANFAIL cfg = 0 \<and> pmap_pte_lookup cfg pmap s va = 0 \<and>
            (\<exists>stb s1. reserve_segtab cfg pmap va s = Some (Inr (stb, s1)) \<and>
               fst (ptp_cache_get cfg s1) = 0 \<and>
               fst (pmap_pte_pagealloc cfg (snd (ptp_cache_get cfg s1))) = 0)
          \<longrightarrow> pmap_pte_reserve cfg pmap va flags s = Some (Inl PanicNoPage))"
proof (cases "pmap_pte_lookup cfg pmap s va = 0")
  case False
  then show ?thesis
    by (simp add: pmap_pte_reserve_def)
next
  case lk: True
  show ?thesis
  proof (cases "reserve_segtab cfg pmap va s")
    case None
    with lk show ?thesis
      by (simp add: pmap_pte_reserve_def)
  next
    case (Some r)
    show ?thesis
    proof (cases r)
      case (Inl e)
      with lk Some show ?thesis
        by (simp add: pmap_pte_reserve_def)
    next
      case (Inr p)
      obtain stb s1 where p: "p = (stb, s1)"
        by (cases p)
      have res: "pmap_pte_reserve cfg pmap va flags s = Some (reserve_leaf cfg stb va flags s1)"
        using lk Some Inr p by (simp add: pmap_pte_reserve_def)
      show ?thesis
      proof (cases "fst (reserve_page cfg s1) = 0")
        case True
        then have both: "fst (ptp_cache_get cfg s1) = 0 \<and>
            fst (pmap_pte_pagealloc cfg (snd (ptp_cache_get cfg s1))) = 0"
          by (simp add: reserve_page_null_iff)
        show ?thesis
          using lk Some Inr p both by (simp add: res reserve_leaf_exhausted [OF True])
      next
        case False
        then have nboth: "\<not> (fst (ptp_cache_get cfg s1) = 0 \<and>
            fst (pmap_pte_pagealloc cfg (snd (ptp_cache_get cfg s1))) = 0)"
          by (simp add: reserve_page_null_iff)
        have "reserve_leaf cfg stb va flags s1 \<noteq> Inr (0, s')" for s'
          using reserve_leaf_nonnull [OF ok False] by blast
        then show ?thesis
          using lk Some Inr p nboth by (auto simp: res)
      qed
    qed
  qed
qed

theorem pte_reserve_null_iff_witness:
  "config_ok spec_cfg \<and>
   pmap_pte_reserve spec_cfg root32 0x100000 0x20 leaf_state32 = Some (Inr (0, leaf_state32)) \<and>
   pmap_pte_reserve spec_cfg root32 0x100000 0 leaf_state32 = Some (Inl PanicNoPage) \<and>
   pmap_pte_reserve spec_cfg root32 0x400000 0x20 leaf_state32 = Some (Inr (0x80020000, leaf_state32))"
proof -
  have a: "(0x20 :: 32 word) AND PMAP_CANFAIL spec_cfg \<noteq> 0"
    "(0 :: 32 word) AND PMAP_CANFAIL spec_cfg = 0"
    "pmap_pte_lookup spec_cfg root32 leaf_state32 0x100000 = 0"
    "reserve_segtab spec_cfg root32 0x100000 leaf_state32 = Some (Inr (pm_segtab root32, leaf_state32))"
    "ptp_cache_get spec_cfg leaf_state32 = (0, leaf_state32)"
    "pmap_pte_pagealloc spec_cfg leaf_state32 = (0, leaf_state32)"
    by (simp_all add: reserve_eval spec_cfg_def root32_def leaf_state32_def boot_state_def)
  have b: "pmap_pte_reserve spec_cfg root32 0x400000 0x20 leaf_state32 = Some (Inr (0x80020000, leaf_state32))"
    by (simp add: reserve_eval spec_cfg_def root32_def leaf_state32_def boot_state_def)
  from pte_reserve_null_iff [OF spec_cfg_ok, of root32 "0x100000" "0x20" leaf_state32] a
  obtain s' where "pmap_pte_reserve spec_cfg root32 0x100000 0x20 leaf_state32 = Some (Inr (0, s'))"
    by auto
  moreover from this have "s' = leaf_state32"
    using a by (simp add: pmap_pte_reserve_def reserve_leaf_def reserve_page_def)
  moreover from pte_reserve_null_iff [OF spec_cfg_ok, of root32 "0x100000" 0 leaf_state32] a
  have "pmap_pte_reserve spec_cfg root32 0x100000 0 leaf_state32 = Some (Inl PanicNoPage)"
    by auto
  ultimately show ?thesis
    using spec_cfg_ok b by simp
qed

section \<open>Recycling through the directory-node pool\<close>

text \<open>
  Claim C8.  The invariant of the pool is that every segtab on the free list has all
  its slots null except the link in slot 0.  Putting a segtab whose slots are all null
  keeps the invariant, and getting it back at once returns that segtab with every slot
  null, the link in slot 0 cleared.  Under the invariant every \<^verbatim>\<open>pmap_segtab_alloc\<close> that
  returns, now or after any number of such puts and gets, returns a segtab with every
  slot null and keeps the invariant, whether the segtab comes from the free list or is
  carved from a freshly allocated zeroed page; and it does return when the free list is
  not empty or the page allocator has a page.
\<close>

theorem segtab_pool_recycling:
  fixes cfg :: "'a::len config"
  assumes ok: "config_ok cfg" and pool: "pool_ok cfg s"
  shows "(stb_empty cfg s stb \<longrightarrow> pool_ok cfg (pmap_segtab_free stb s)) \<and>
         (stb_empty cfg s stb \<and> stb \<noteq> 0 \<longrightarrow>
            (\<exists>s'. pmap_segtab_alloc cfg (pmap_segtab_free stb s) = Some (Inr (stb, s')) \<and>
                  stb_empty cfg s' stb \<and> pool_ok cfg s')) \<and>
         (\<forall>stb' s'. pmap_segtab_alloc cfg s = Some (Inr (stb', s')) \<longrightarrow>
            stb_empty cfg s' stb' \<and> pool_ok cfg s') \<and>
         (free_segtab s \<noteq> 0 \<or> (uvm_pages s \<noteq> [] \<and> hd (uvm_pages s) \<noteq> 0) \<longrightarrow>
            (\<exists>stb' s'. pmap_segtab_alloc cfg s = Some (Inr (stb', s'))))"
proof -
  have put: "pool_ok cfg (pmap_segtab_free stb s)" if "stb_empty cfg s stb"
    using pool that by (intro pool_ok_put) (simp_all add: stb_empty_iff)
  have roundtrip: "\<exists>s'. pmap_segtab_alloc cfg (pmap_segtab_free stb s) = Some (Inr (stb, s')) \<and>
                  stb_empty cfg s' stb \<and> pool_ok cfg s'"
    if e: "stb_empty cfg s stb" and nz: "stb \<noteq> 0"
  proof -
    have "free_segtab (pmap_segtab_free stb s) = stb"
      by (simp add: pmap_segtab_free_def)
    with pmap_segtab_alloc_freelist [OF put [OF e], of] nz show ?thesis
      by auto
  qed
  have get: "\<exists>stb' s'. pmap_segtab_alloc cfg s = Some (Inr (stb', s'))"
    if t: "free_segtab s \<noteq> 0 \<or> (uvm_pages s \<noteq> [] \<and> hd (uvm_pages s) \<noteq> 0)"
  proof (cases "free_segtab s \<noteq> 0")
    case True
    from pmap_segtab_alloc_freelist(1) [OF pool True] show ?thesis
      by blast
  next
    case False
    with t obtain pg rest where p: "uvm_pages s = pg # rest" "pg \<noteq> 0"
      by (cases "uvm_pages s") auto
    from False have fl: "free_segtab s = 0"
      by simp
    from pmap_segtab_alloc_fresh(1) [OF ok fl p] show ?thesis
      by blast
  qed
  have ret: "stb_empty cfg s' stb' \<and> pool_ok cfg s'"
    if "pmap_segtab_alloc cfg s = Some (Inr (stb', s'))" for stb' s'
    using that ok pool by (rule pmap_segtab_alloc_returns) simp
  from put roundtrip get ret show ?thesis
    by blast
qed

theorem segtab_pool_recycling_witness:
  "config_ok cfg3 \<and> pool_ok cfg3 (boot_state [0x100]) \<and>
   stb_empty cfg3 (boot_state [0x100]) 0x300 \<and>
   pool_ok cfg3 (pmap_segtab_free 0x300 (boot_state [0x100])) \<and>
   (\<exists>s'. pmap_segtab_alloc cfg3 (pmap_segtab_free 0x300 (boot_state [0x100])) = Some (Inr (0x300, s')) \<and>
         stb_empty cfg3 s' 0x300 \<and> pool_ok cfg3 s') \<and>
   (\<exists>stb' s'. pmap_segtab_alloc cfg3 (boot_state [0x100]) = Some (Inr (stb', s')) \<and>
         stb_empty cfg3 s' stb' \<and> pool_ok cfg3 s')"
proof -
  have pool: "pool_ok cfg3 (boot_state [0x100])"
    by (rule pool_ok_no_freelist) (simp add: boot_state_def)
  have e: "stb_empty cfg3 (boot_state [0x100]) 0x300"
    by (simp add: stb_empty_iff boot_state_def)
  have pg: "uvm_pages (boot_state [0x100 :: 16 word]) \<noteq> [] \<and> hd (uvm_pages (boot_state [0x100 :: 16 word])) \<noteq> 0"
    by (simp add: boot_state_def)
  from segtab_pool_recycling [OF cfg3_ok pool, of "0x300"] e pg cfg3_ok pool show ?thesis
    by (simp del: ex_simps) blast
qed
section \<open>Round trip and monotonic growth\<close>

text \<open>
  Claim C2.  In a well-formed directory state, when \<^verbatim>\<open>pmap_pte_reserve\<close> returns a non-null
  pointer \<open>X\<close> for \<open>va\<close>, then \<^verbatim>\<open>pmap_pte_lookup\<close> of \<open>va\<close> in the state it leaves returns
  exactly \<open>X\<close>, and so does every repeated \<^verbatim>\<open>pmap_pte_reserve\<close> of \<open>va\<close>, whatever its flags,
  without changing the state again.
\<close>

theorem pte_reserve_lookup_roundtrip:
  fixes cfg :: "'a::len config"
  assumes ok: "config_ok cfg" and k: "kernel_ok cfg pmap s"
    and ret: "pmap_pte_reserve cfg pmap va flags s = Some (Inr (X, s'))" and nz: "X \<noteq> 0"
  shows "pmap_pte_lookup cfg pmap s' va = X \<and>
         pmap_pte_reserve cfg pmap va flags' s' = Some (Inr (X, s'))"
proof -
  have "pmap_pte_lookup cfg pmap s' va = X"
    using reserve_ok(4) [OF ok k ret] nz by simp
  with nz show ?thesis
    by (simp add: pmap_pte_reserve_def)
qed

theorem pte_reserve_lookup_roundtrip_witness:
  "pmap_pte_reserve spec_cfg root32 0x400000 0 page_state32 = Some (Inr (0x80030000, reserved_state32)) \<and>
   pmap_pte_lookup spec_cfg root32 reserved_state32 0x400000 = 0x80030000 \<and>
   pmap_pte_reserve spec_cfg root32 0x400000 0 reserved_state32 = Some (Inr (0x80030000, reserved_state32))"
  using pte_reserve_lookup_roundtrip [OF spec_cfg_ok page_state32_ok reserve_page_state32, of 0]
    reserve_page_state32
  by simp

text \<open>
  Claim C9.  Take a well-formed directory state and run any sequence of
  \<^verbatim>\<open>pmap_pte_reserve\<close> and \<^verbatim>\<open>pmap_pte_lookup\<close> operations on the pmap, then any further such
  sequence.  A slot of a segtab of the directory (of the root or of a segtab below it, so a
  segtab slot or a leaf slot) that is non-null after the first sequence holds the same
  pointer after the second, and its segtab is still part of the directory: no operation
  writes null or another pointer into a populated slot.
\<close>

theorem directory_growth_monotonic:
  fixes cfg :: "'a::len config"
  assumes ok: "config_ok cfg" and k: "kernel_ok cfg pmap s"
    and r1: "run_ops cfg pmap ops1 s = Some (Inr s1)"
    and r2: "run_ops cfg pmap ops2 s1 = Some (Inr s2)"
    and b: "b \<in> live_segtabs cfg pmap s1" and i: "i < PMAP_SEGTABSIZE cfg"
    and nz: "seg_heap s1 b i \<noteq> 0"
  shows "seg_heap s2 b i = seg_heap s1 b i \<and> b \<in> live_segtabs cfg pmap s2"
proof -
  have "kernel_ok cfg pmap s1"
    using run_ops_ok [OF ok k r1] by simp
  from run_ops_ok [OF ok this r2] b i nz show ?thesis
    by auto
qed

theorem directory_growth_monotonic_witness:
  "run_ops cfg3 root16 [Reserve 0x140 0] pages_state16 = Some (Inr reserved_state16) \<and>
   run_ops cfg3 root16 [Lookup 0x140, Reserve 0x180 0, Reserve 0x140 0x20] reserved_state16
     = Some (Inr reserved_state16') \<and>
   seg_heap reserved_state16 0x100 1 = 0x300 \<and> seg_heap reserved_state16' 0x100 1 = 0x300 \<and>
   seg_heap reserved_state16 0x300 1 = 0x400 \<and> seg_heap reserved_state16' 0x300 1 = 0x400 \<and>
   0x300 \<in> live_segtabs cfg3 root16 reserved_state16'"
proof -
  have r1: "run_ops cfg3 root16 [Reserve 0x140 0] pages_state16 = Some (Inr reserved_state16)"
    by (simp add: reserve_pages_state16)
  have l: "pmap_pte_lookup cfg3 root16 reserved_state16' 0x140 = 0x400"
    by (simp add: cfg3_eval)
  have r2: "run_ops cfg3 root16 [Lookup 0x140, Reserve 0x180 0, Reserve 0x140 0x20] reserved_state16
      = Some (Inr reserved_state16')"
    by (simp add: reserve_reserved_state16) (simp add: pmap_pte_reserve_def l)
  have v: "seg_heap reserved_state16 0x100 1 = 0x300" "seg_heap reserved_state16 0x300 1 = 0x400"
    by (simp_all add: cfg3_eval)
  have i: "1 < PMAP_SEGTABSIZE cfg3"
    by (simp add: cfg3_def)
  have root: "0x100 \<in> live_segtabs cfg3 root16 reserved_state16"
    by (simp add: live_segtabs_def root16_def)
  have "0x300 \<in> children cfg3 root16 reserved_state16"
    unfolding children_def using v(1) by (auto simp: cfg3_def root16_def intro!: exI [of _ 1])
  then have child: "0x300 \<in> live_segtabs cfg3 root16 reserved_state16"
    by (simp add: live_segtabs_def)
  from directory_growth_monotonic [OF cfg3_ok pages_state16_ok r1 r2 root i]
    directory_growth_monotonic [OF cfg3_ok pages_state16_ok r1 r2 child i] v r1 r2
  show ?thesis
    by simp
qed

section \<open>Isolation\<close>



section \<open>Teardown\<close>

text \<open>
  Claim C1 says that \<^verbatim>\<open>pmap_segtab_destroy\<close> with a non-null callback returns every segtab,
  the root included, to the pool and leaves \<^verbatim>\<open>pm_segtab\<close> null.  The source passes
  \<^verbatim>\<open>func == NULL\<close> as \<^verbatim>\<open>free_stb\<close> to \<^verbatim>\<open>pmap_segtab_release\<close>: with a callback the root is
  kept.  On the three-level directory with the root \<^verbatim>\<open>0x100\<close>, the segtab \<^verbatim>\<open>0x108\<close> below it
  and the leaf \<^verbatim>\<open>0x200\<close>, teardown with the zeroing callback puts the leaf in the leaf-page
  cache and the segtab \<^verbatim>\<open>0x108\<close> on the free list, but the root pointer is still \<^verbatim>\<open>0x100\<close>
  and the root is not on the free list.
\<close>

theorem segtab_destroy_totality_counterexample:
  "map_option (map_sum id (destroy_view 8))
     (pmap_segtab_destroy cfg3 (Some (zero_callback cfg3)) 0 (root16, tree_state16))
     = Some (Inr (0x100, [0x108], [0x200]))"
  by (simp add: destroy_eval)

text \<open>
  Claim C1, amended.  Take a well-formed directory with a non-null root, whose lowest
  address \<^verbatim>\<open>pm_minaddr\<close> lies in the first segment, and a callback that zeroes every entry of
  the leaf it is handed and leaves the other leaves as they are; in a kernel with the
  debugging checks the leaves are already zero, because \<^verbatim>\<open>pmap_check_ptes\<close> runs before the
  callback.  Then \<^verbatim>\<open>pmap_segtab_destroy\<close> returns without a panic, and afterwards:
  every leaf of the directory, once, has been pushed onto the leaf-page cache (onto the free
  pages of the allocator when there is no cache); every segtab below the root, once, has
  been put on the free list of segtabs, in front of the segtabs that were there.  With a
  non-null callback the root is kept: \<^verbatim>\<open>pm_segtab\<close> is unchanged and not null, the root is not
  on the free list, all its slots are null, and the leaves given back are zero.  Only
  with a null callback the root is put on the free list too, and \<^verbatim>\<open>pm_segtab\<close> is null.
\<close>

theorem segtab_destroy_totality:
  fixes cfg :: "'a::len config"
  assumes ok: "config_ok cfg" and k: "kernel_ok cfg pmap s"
    and ch: "seg_chain (seg_heap s) (free_segtab s) fl"
    and m: "pm_minaddr pmap < NBSEG cfg"
    and cbz: "\<forall>cb. func = Some cb \<longrightarrow> zeroing cfg cb"
    and dz: "DEBUG cfg \<longrightarrow> (\<forall>p \<in> leaves cfg pmap s. leaf_zero cfg s p)"
  shows "\<exists>s'. pmap_segtab_destroy cfg func flags (pmap, s)
          = Some (Inr (if func = None then pmap\<lparr>pm_segtab := 0\<rparr> else pmap, s')) \<and>
     pages_given cfg (leaf_list cfg pmap s) s s' \<and>
     set (leaf_list cfg pmap s) = leaves cfg pmap s \<and> distinct (leaf_list cfg pmap s) \<and>
     seg_chain (seg_heap s') (free_segtab s')
       ((if func = None then [pm_segtab pmap] else []) @ rev (child_list cfg pmap s) @ fl) \<and>
     set (child_list cfg pmap s) = children cfg pmap s \<and> distinct (child_list cfg pmap s) \<and>
     pm_segtab pmap \<noteq> 0 \<and> pm_segtab pmap \<notin> set (rev (child_list cfg pmap s) @ fl) \<and>
     (func \<noteq> None \<longrightarrow>
        (\<forall>j < PMAP_SEGTABSIZE cfg. seg_heap s' (pm_segtab pmap) j = 0) \<and>
        (\<forall>p \<in> leaves cfg pmap s. leaf_zero cfg s' p))"
proof -
  note tree = kernel_okD(1) [OF k]
  from kernel_okD(2) [OF k] obtain fl0 where p0: "pool_sep cfg pmap s fl0"
    by blast
  then have "fl0 = fl"
    using ch by (auto simp: pool_sep_def intro: seg_chain_unique)
  with p0 have pool: "pool_sep cfg pmap s fl"
    by simp
  note c = child_list_props [OF ok tree] and l = leaf_list_props [OF ok tree]
  have "pm_segtab pmap \<noteq> 0"
    using tree by (simp add: tree_ok_def)
  moreover have "pm_segtab pmap \<notin> set (rev (child_list cfg pmap s) @ fl)"
    using tree pool c(1) by (auto simp: tree_ok_def pool_sep_def live_segtabs_def)
  ultimately show ?thesis
    using pmap_segtab_destroy_result [OF ok k ch m cbz dz, of flags] c l by blast
qed

theorem segtab_destroy_totality_witness:
  "\<exists>s'. pmap_segtab_destroy cfg3 (Some (zero_callback cfg3)) 0 (root16, tree_state16)
          = Some (Inr (root16, s')) \<and>
     ptp_pgflist s' = [0x200] \<and> uvm_pages s' = [] \<and> leaves cfg3 root16 tree_state16 = {0x200} \<and>
     seg_chain (seg_heap s') (free_segtab s') [0x108] \<and> children cfg3 root16 tree_state16 = {0x108} \<and>
     pm_segtab root16 = 0x100 \<and>
     (\<forall>j < 4. seg_heap s' 0x100 j = 0) \<and> leaf_zero cfg3 s' 0x200"
proof -
  have ch: "seg_chain (seg_heap tree_state16) (free_segtab tree_state16) []"
    by (simp add: tree_state16_def boot_state_def)
  have m: "pm_minaddr root16 < NBSEG cfg3"
    by (simp add: root16_def NBSEG_def NBPG_def cfg3_def)
  have cbz: "\<forall>cb. Some (zero_callback cfg3) = Some cb \<longrightarrow> zeroing cfg3 cb"
    by (simp add: zeroing_zero_callback)
  have dz: "DEBUG cfg3 \<longrightarrow> (\<forall>p \<in> leaves cfg3 root16 tree_state16. leaf_zero cfg3 tree_state16 p)"
    by (simp add: leaf_zero_iff tree_state16_def boot_state_def)
  have c: "PMAP_PTP_CACHE cfg3" "PMAP_SEGTABSIZE cfg3 = 4" "pm_segtab root16 = 0x100"
    "ptp_pgflist tree_state16 = []" "uvm_pages tree_state16 = []"
    by (simp_all add: cfg3_def root16_def tree_state16_def boot_state_def)
  from segtab_destroy_totality [OF cfg3_ok tree_state16_ok ch m cbz dz, of 0]
  obtain s' where r: "pmap_segtab_destroy cfg3 (Some (zero_callback cfg3)) 0 (root16, tree_state16)
          = Some (Inr (root16, s'))"
    and p: "pages_given cfg3 (leaf_list cfg3 root16 tree_state16) tree_state16 s'"
    and l: "set (leaf_list cfg3 root16 tree_state16) = leaves cfg3 root16 tree_state16"
    and f: "seg_chain (seg_heap s') (free_segtab s') ([] @ rev (child_list cfg3 root16 tree_state16) @ [])"
    and cl: "set (child_list cfg3 root16 tree_state16) = children cfg3 root16 tree_state16"
    and e: "\<forall>j < PMAP_SEGTABSIZE cfg3. seg_heap s' (pm_segtab root16) j = 0"
    and z: "\<forall>p \<in> leaves cfg3 root16 tree_state16. leaf_zero cfg3 s' p"
    by auto
  have lv: "leaves cfg3 root16 tree_state16 = {0x200}"
    using l by (simp add: tree_state16_lists)
  have "ptp_pgflist s' = [0x200]" "uvm_pages s' = []"
    using p by (simp_all add: tree_state16_lists pages_given_def c)
  moreover have "seg_chain (seg_heap s') (free_segtab s') [0x108]"
    using f by (simp add: tree_state16_lists)
  moreover have "children cfg3 root16 tree_state16 = {0x108}"
    using cl by (simp add: tree_state16_lists)
  moreover have "\<forall>j < 4. seg_heap s' 0x100 j = 0"
    using e by (simp add: c)
  moreover have "leaf_zero cfg3 s' 0x200"
    using z by (simp add: lv)
  ultimately show ?thesis
    using r lv c(3) by blast
qed


end
